theory Spec2Isabelle
  imports Complex_Main "HOL-Library.AList"
begin

section \<open>Grid geometry of the tiled equirectangular adapter\<close>

text \<open>
  A tile position is the object \<open>{ col, row }\<close> of the adapter; the candidates of a refresh
  carry an \<open>angle\<close> as well. Columns and rows are the integers of the JSDoc typedef.
\<close>

record tile_pos =
  col :: int
  row :: int

record Tile = tile_pos +
  angle :: real

text \<open>
  The callback of \<open>.map\<close> in \<open>__getAdjacentTiles\<close>: the row is reflected at a pole and the
  column shifted by half the grid, then the column is wrapped once to the left or to the right.
  \<open>panorama.cols / 2\<close> is the exact quotient for the even column counts \<open>loadTexture\<close>
  accepts; it is written \<open>cols div 2\<close> here.
\<close>

definition wrapTile :: "int \<Rightarrow> int \<Rightarrow> tile_pos \<Rightarrow> tile_pos" where
  "wrapTile cols rows tile =
     (let t1 = (if row tile < 0
                then tile\<lparr>row := - row tile - 1, col := col tile + cols div 2\<rparr>
                else if row tile \<ge> rows
                then tile\<lparr>row := (rows - 1) - (row tile - rows), col := col tile + cols div 2\<rparr>
                else tile)
      in if col t1 < 0 then t1\<lparr>col := col t1 + cols\<rparr>
         else if col t1 \<ge> cols then t1\<lparr>col := col t1 - cols\<rparr>
         else t1)"

definition getAdjacentTiles :: "int \<Rightarrow> int \<Rightarrow> int \<Rightarrow> int \<Rightarrow> tile_pos list" where
  "getAdjacentTiles cols rows c r =
     map (wrapTile cols rows)
       [\<lparr>col = c - 1, row = r - 1\<rparr>,
        \<lparr>col = c, row = r - 1\<rparr>,
        \<lparr>col = c, row = r\<rparr>,
        \<lparr>col = c - 1, row = r\<rparr>]"

text \<open>
  The wrap as the specification words it: reflect the row at the top or at the bottom with a
  hemisphere shift of the column, then reduce the column modulo \<open>cols\<close>.
\<close>

definition wrap_spec :: "int \<Rightarrow> int \<Rightarrow> int \<times> int \<Rightarrow> int \<times> int" where
  "wrap_spec cols rows p =
     (case p of (c, r) \<Rightarrow>
        if r < 0 then ((c + cols div 2) mod cols, - r - 1)
        else if r \<ge> rows then ((c + cols div 2) mod cols, (rows - 1) - (r - rows))
        else (c mod cols, r))"

definition pos_pair :: "tile_pos \<Rightarrow> int \<times> int" where
  "pos_pair t = (col t, row t)"

section \<open>Tasks and the loading queue\<close>

datatype STATUS = PENDING | RUNNING | CANCELLED | DONE | ERROR

text \<open>
  \<open>tileId\<close> renders a tile as the string \<open>`${col}x${row}`\<close>. The rendering is injective
  on integer columns and rows; the model uses the pair it encodes as the key.
\<close>

type_synonym tile_id = "int \<times> int"

definition tileId :: "'a tile_pos_scheme \<Rightarrow> tile_id" where
  "tileId tile = (col tile, row tile)"

text \<open>
  A \<open>Task\<close> object. Its \<open>fn\<close> is always the closure \<open>() => this.__drawTile(tile)\<close>, so the
  record keeps the tile the closure captured.
\<close>

record Task =
  task_id :: tile_id
  priority :: real
  status :: STATUS
  fn_tile :: Tile

definition new_Task :: "tile_id \<Rightarrow> real \<Rightarrow> Tile \<Rightarrow> Task" where
  "new_Task i p tile = \<lparr>task_id = i, priority = p, status = PENDING, fn_tile = tile\<rparr>"

text \<open>
  What a settled tile fetch paints on a canvas: the decoded image, or the warning placeholder
  of the \<open>catch\<close> branch. \<open>Background\<close> is the fill of a new canvas. Pixel coordinates are
  left out; the operation records the tile.
\<close>

datatype draw = Background | Image int int | Warning int int

text \<open>
  A pending \<open>loader.load\<close> of \<open>__drawTile\<close>, with what its callbacks close over: the task
  whose \<open>fn\<close> started it, the canvas object \<open>this.canvas[canvasIdx]\<close> behind \<open>ctx\<close>, and
  \<open>canvasIdx\<close> itself.
\<close>

record fetch =
  f_task :: nat
  f_ctx :: nat
  f_canvasIdx :: nat

text \<open>
  The adapter together with its queue. Task and canvas objects live in stores and are
  referred to by address (their index), since closures of pending fetches keep them alive
  after the queue or the adapter dropped them.
  \<^item> \<open>heap\<close>: every \<open>Task\<close> allocated so far;
  \<^item> \<open>tasks\<close>, \<open>runningTasks\<close>, \<open>concurency\<close>: the fields of \<open>Queue\<close>, the two objects as
    association lists in property order;
  \<^item> \<open>tiles\<close>, \<open>colSize\<close>, \<open>rowSize\<close>: \<open>this.props\<close>;
  \<^item> \<open>canvases\<close>: every canvas created so far, as the list of what was painted on it;
    \<open>canvas\<close>: the array \<open>this.canvas\<close> of addresses into it;
  \<^item> \<open>textures\<close>: the array \<open>this.textures\<close>, each texture as the number of times the adapter
    assigned \<open>needsUpdate = true\<close> to it;
  \<^item> \<open>panorama\<close>: \<open>cols\<close> and \<open>rows\<close> of \<open>this.psv.config.panorama\<close>. The viewer, which is
    not part of the sources, assigns it; the model assigns it when \<open>loadTexture\<close> accepts a
    configuration;
  \<^item> \<open>fetches\<close>: the tile fetches that have not settled;
  \<^item> \<open>loads\<close>: the log of the tiles whose url was passed to \<open>loader.load\<close>.
\<close>

record Adapter =
  heap :: "Task list"
  tasks :: "(tile_id \<times> nat) list"
  runningTasks :: "(tile_id \<times> bool) list"
  concurency :: nat
  tiles :: "tile_id set"
  colSize :: real
  rowSize :: real
  canvases :: "draw list list"
  canvas :: "nat list"
  textures :: "nat list"
  panorama :: "(int \<times> int) option"
  fetches :: "fetch list"
  loads :: "tile_id list"

definition QUEUE_CONCURENCY :: nat where
  "QUEUE_CONCURENCY = 2"

text \<open>The constructors of \<open>Queue\<close> and of the adapter.\<close>

definition constructor :: Adapter where
  "constructor =
     \<lparr>heap = [], tasks = [], runningTasks = [], concurency = QUEUE_CONCURENCY,
      tiles = {}, colSize = 0, rowSize = 0, canvases = [], canvas = [], textures = [],
      panorama = None, fetches = [], loads = []\<rparr>"

definition set_status :: "nat \<Rightarrow> STATUS \<Rightarrow> Adapter \<Rightarrow> Adapter" where
  "set_status a st s = s\<lparr>heap := (heap s)[a := (heap s ! a)\<lparr>status := st\<rparr>]\<rparr>"

definition set_priority :: "real \<Rightarrow> nat \<Rightarrow> Adapter \<Rightarrow> Adapter" where
  "set_priority p a s = s\<lparr>heap := (heap s)[a := (heap s ! a)\<lparr>priority := p\<rparr>]\<rparr>"

text \<open>\<open>Task.cancel\<close>.\<close>

definition Task_cancel :: "nat \<Rightarrow> Adapter \<Rightarrow> Adapter" where
  "Task_cancel a s = set_status a CANCELLED s"

text \<open>\<open>Queue.enqueue\<close>, for the task at address \<open>a\<close>: \<open>this.tasks[task.id] = task\<close>.\<close>

definition Queue_enqueue :: "nat \<Rightarrow> Adapter \<Rightarrow> Adapter" where
  "Queue_enqueue a s = s\<lparr>tasks := AList.update (task_id (heap s ! a)) a (tasks s)\<rparr>"

text \<open>\<open>Queue.clear\<close>: the values are snapshot, both objects replaced, then every task of the
  snapshot is cancelled.\<close>

definition Queue_clear :: "Adapter \<Rightarrow> Adapter" where
  "Queue_clear s =
     (let snapshot = map snd (tasks s);
          s1 = s\<lparr>tasks := [], runningTasks := []\<rparr>
      in fold Task_cancel snapshot s1)"

definition Queue_setPriority :: "tile_id \<Rightarrow> real \<Rightarrow> Adapter \<Rightarrow> Adapter" where
  "Queue_setPriority taskId p s =
     (case map_of (tasks s) taskId of
        None \<Rightarrow> s
      | Some a \<Rightarrow> set_priority p a s)"

definition Queue_setAllPriorities :: "real \<Rightarrow> Adapter \<Rightarrow> Adapter" where
  "Queue_setAllPriorities p s = fold (set_priority p) (map snd (tasks s)) s"

text \<open>
  The selection of \<open>Queue.start\<close>: the values of \<open>this.tasks\<close>, filtered to the pending tasks
  of positive priority, sorted by ascending priority (a stable sort), and the last one popped.
\<close>

definition eligible :: "Task list \<Rightarrow> tile_id \<times> nat \<Rightarrow> bool" where
  "eligible h e \<longleftrightarrow>
     snd e < length h \<and> status (h ! snd e) = PENDING \<and> priority (h ! snd e) > 0"

definition nextTask :: "Adapter \<Rightarrow> (tile_id \<times> nat) option" where
  "nextTask s =
     (let sorted_tasks = sort_key (\<lambda>e. priority (heap s ! snd e)) (filter (eligible (heap s)) (tasks s))
      in if sorted_tasks = [] then None else Some (last sorted_tasks))"

text \<open>
  The index of the canvas a tile is drawn on, as \<open>__drawTile\<close> computes it. With \<open>cols = 0\<close>
  the quotient is infinite or \<open>NaN\<close> and no canvas is found: \<open>None\<close>.
\<close>

definition canvasIdx :: "int \<Rightarrow> int \<Rightarrow> 'a tile_pos_scheme \<Rightarrow> int option" where
  "canvasIdx cols rows tile =
     (if cols = 0 then None
      else Some (\<lfloor>(of_int (cols - 1 - col tile) / of_int cols * 4 :: real)\<rfloor> * 2
                 + (if (of_int (row tile) :: real) \<ge> of_int rows / 2 then 1 else 0)))"

text \<open>
  The synchronous part of \<open>__drawTile\<close>, up to the call of \<open>loader.load\<close>. It throws a
  \<open>TypeError\<close> (\<open>None\<close>) when there is no panorama configuration or when
  \<open>this.canvas[canvasIdx]\<close> is undefined; otherwise it yields the canvas behind \<open>ctx\<close> and the
  index.
\<close>

definition drawTile_begin :: "Adapter \<Rightarrow> 'a tile_pos_scheme \<Rightarrow> (nat \<times> nat) option" where
  "drawTile_begin s tile =
     (case panorama s of
        None \<Rightarrow> None
      | Some (cols, rows) \<Rightarrow>
          (case canvasIdx cols rows tile of
             None \<Rightarrow> None
           | Some k \<Rightarrow>
               if 0 \<le> k \<and> nat k < length (canvas s)
               then Some (canvas s ! nat k, nat k)
               else None))"

text \<open>
  \<open>Task.start\<close> for the task at address \<open>a\<close>: the status becomes \<open>RUNNING\<close> and \<open>fn\<close> is
  called. \<open>Inl\<close> is the exception of the synchronous part of \<open>__drawTile\<close>, with the state
  it leaves behind; \<open>Inr\<close> is the normal return, the url logged and the fetch pending.
\<close>

definition Task_start :: "nat \<Rightarrow> Adapter \<Rightarrow> Adapter + Adapter" where
  "Task_start a s =
     (let s2 = set_status a RUNNING s;
          tile = fn_tile (heap s2 ! a)
      in case drawTile_begin s2 tile of
           None \<Rightarrow> Inl s2
         | Some ck \<Rightarrow>
             Inr (s2\<lparr>loads := loads s2 @ [tileId tile],
                     fetches := fetches s2 @ [\<lparr>f_task = a, f_ctx = fst ck, f_canvasIdx = snd ck\<rparr>]\<rparr>))"

text \<open>
  \<open>Queue.start\<close>. With a free slot and a selected task, the task is entered in
  \<open>runningTasks\<close> and started; an exception of \<open>Task.start\<close> leaves \<open>Queue.start\<close> at once,
  otherwise \<open>Queue.start\<close> calls itself to fill the next slot.
\<close>

function Queue_start :: "Adapter \<Rightarrow> Adapter" where
  "Queue_start s =
     (if length (runningTasks s) \<ge> concurency s then s
      else case nextTask s of
        None \<Rightarrow> s
      | Some e \<Rightarrow>
          (case Task_start (snd e) (s\<lparr>runningTasks := AList.update (fst e) True (runningTasks s)\<rparr>) of
             Inl thrown \<Rightarrow> thrown
           | Inr s3 \<Rightarrow> Queue_start s3))"
  by pat_completeness auto

lemma nextTask_Some:
  assumes "nextTask s = Some e"
  shows "e \<in> set (tasks s) \<and> eligible (heap s) e"
proof -
  let ?c = "sort_key (\<lambda>e. priority (heap s ! snd e)) (filter (eligible (heap s)) (tasks s))"
  from assms have ne: "?c \<noteq> []" and e: "e = last ?c"
    by (auto simp: nextTask_def Let_def split: if_splits)
  from ne have "last ?c \<in> set ?c" by (rule last_in_set)
  then show ?thesis using e by simp
qed

lemma length_filter_mono:
  "(\<And>x. x \<in> set xs \<Longrightarrow> Q x \<Longrightarrow> P x) \<Longrightarrow> length (filter Q xs) \<le> length (filter P xs)"
  by (induction xs) auto

lemma length_filter_less2:
  "\<lbrakk>\<And>x. x \<in> set xs \<Longrightarrow> Q x \<Longrightarrow> P x; e \<in> set xs; P e; \<not> Q e\<rbrakk>
   \<Longrightarrow> length (filter Q xs) < length (filter P xs)"
proof (induction xs)
  case Nil
  then show ?case by simp
next
  case (Cons x xs)
  have le: "length (filter Q xs) \<le> length (filter P xs)"
    using Cons.prems(1) by (intro length_filter_mono) auto
  show ?case
  proof (cases "e = x")
    case True
    then show ?thesis using Cons.prems le by auto
  next
    case False
    then have "length (filter Q xs) < length (filter P xs)" using Cons by auto
    then show ?thesis using Cons.prems(1)[of x] by auto
  qed
qed

text \<open>Every call of \<open>Queue.start\<close> returns: each recursive call follows the start of a task
  that was eligible, and a started task is not eligible again.\<close>

lemma Task_start_heap:
  "Task_start a s = Inl s' \<or> Task_start a s = Inr s'
   \<Longrightarrow> heap s' = (heap s)[a := (heap s ! a)\<lparr>status := RUNNING\<rparr>] \<and> tasks s' = tasks s"
  by (auto simp: Task_start_def Let_def set_status_def split: option.splits)

termination Queue_start
proof (relation "measure (\<lambda>s. length (filter (eligible (heap s)) (tasks s)))", goal_cases)
  case 1
  show ?case by simp
next
  case (2 s e s3)
  have e: "e \<in> set (tasks s)" "eligible (heap s) e"
    using nextTask_Some[OF 2(2)] by auto
  have h2: "heap s3 = (heap s)[snd e := (heap s ! snd e)\<lparr>status := RUNNING\<rparr>]"
    and t2: "tasks s3 = tasks s"
    using Task_start_heap[of "snd e" "s\<lparr>runningTasks := AList.update (fst e) True (runningTasks s)\<rparr>" s3] 2(3)
    by simp_all
  have "length (filter (eligible (heap s3)) (tasks s)) < length (filter (eligible (heap s)) (tasks s))"
  proof (rule length_filter_less2[where e=e])
    fix x
    assume "x \<in> set (tasks s)" "eligible (heap s3) x"
    then show "eligible (heap s) x"
      unfolding h2 by (cases "snd x = snd e") (auto simp: eligible_def)
  next
    show "\<not> eligible (heap s3) e"
      using e unfolding h2 by (auto simp: eligible_def)
  qed (use e in auto)
  then show ?case using t2 by simp
qed

declare Queue_start.simps [simp del]

section \<open>The adapter\<close>

text \<open>
  The settlement of the fetch started by the task at address \<open>a\<close>, with \<open>ok\<close> telling whether
  the image loaded. The callbacks run in the order the promises chain them:
  \<^item> \<open>__drawTile\<close>: the image or, from \<open>catch\<close>, the warning placeholder is painted on the
    captured canvas; then \<open>this.textures[canvasIdx].needsUpdate = true\<close>, which throws when the
    array has no such element. \<open>catch\<close> absorbs the fetch error, so the promise of \<open>fn\<close> is
    rejected only by that \<open>TypeError\<close>;
  \<^item> \<open>Task.start\<close>: the status becomes \<open>DONE\<close> when the promise of \<open>fn\<close> is fulfilled and
    \<open>ERROR\<close> when it is rejected;
  \<^item> \<open>Queue.start\<close>: the task's id is deleted from \<open>tasks\<close> and \<open>runningTasks\<close>, and
    \<open>Queue.start\<close> runs again.
  \<open>finish_fetch\<close> is these callbacks up to the two deletions, \<open>settle\<close> finds the fetch
  (the first one pending for the task; without one nothing happens) and ends with
  \<open>Queue.start\<close>.
  \<open>this.psv.needsUpdate()\<close> acts on the viewer only and is left out.
\<close>

definition finish_fetch :: "fetch \<Rightarrow> bool \<Rightarrow> Adapter \<Rightarrow> Adapter" where
  "finish_fetch f ok s =
     (let a = f_task f;
          tile = fn_tile (heap s ! a);
          painted = (if ok then Image (col tile) (row tile) else Warning (col tile) (row tile));
          s1 = s\<lparr>fetches := remove1 f (fetches s)\<rparr>;
          s2 = s1\<lparr>canvases := (canvases s1)[f_ctx f := canvases s1 ! f_ctx f @ [painted]]\<rparr>;
          s3 = (if f_canvasIdx f < length (textures s2)
                then set_status a DONE
                       (s2\<lparr>textures := (textures s2)[f_canvasIdx f := textures s2 ! f_canvasIdx f + 1]\<rparr>)
                else set_status a ERROR s2);
          i = task_id (heap s3 ! a)
      in s3\<lparr>tasks := AList.delete i (tasks s3),
            runningTasks := AList.delete i (runningTasks s3)\<rparr>)"

definition settle :: "nat \<Rightarrow> bool \<Rightarrow> Adapter \<Rightarrow> Adapter" where
  "settle a ok s =
     (case find (\<lambda>f. f_task f = a) (fetches s) of
        None \<Rightarrow> s
      | Some f \<Rightarrow> Queue_start (finish_fetch f ok s))"

text \<open>The body of the \<open>forEach\<close> of \<open>__loadTiles\<close>, and \<open>__loadTiles\<close>.\<close>

definition loadTile :: "Tile \<Rightarrow> Adapter \<Rightarrow> Adapter" where
  "loadTile tile s =
     (let i = tileId tile;
          p = pi / 2 - angle tile
      in if i \<in> tiles s then Queue_setPriority i p s
         else (let s1 = s\<lparr>tiles := insert i (tiles s)\<rparr>;
                   a = length (heap s1);
                   s2 = s1\<lparr>heap := heap s1 @ [new_Task i p tile]\<rparr>
               in Queue_enqueue a s2))"

definition loadTiles :: "Tile list \<Rightarrow> Adapter \<Rightarrow> Adapter" where
  "loadTiles tls s = Queue_start (fold loadTile tls (Queue_setAllPriorities 0 s))"

text \<open>
  The argument of \<open>loadTexture\<close>: a value whose \<open>typeof\<close> is not \<open>'object'\<close> (a url string,
  say, meant for another adapter), \<open>null\<close>, or an object whose four required properties may
  be absent. The numbers are the integers of the typedef.
\<close>

record Panorama =
  panorama_width :: "int option"
  panorama_cols :: "int option"
  panorama_rows :: "int option"
  panorama_tileUrl :: "(int \<Rightarrow> int \<Rightarrow> string) option"
  panorama_baseUrl :: "string option"

datatype panorama_arg = NotAnObject | Null | PanoramaObject Panorama

datatype load_result = Thrown | Rejected string | Resolved

text \<open>\<open>!x\<close> for a property holding a number: absent, or zero.\<close>

definition falsy :: "int option \<Rightarrow> bool" where
  "falsy x \<longleftrightarrow> (case x of None \<Rightarrow> True | Some n \<Rightarrow> n = 0)"

text \<open>The remainder \<open>%\<close> of JavaScript on integers: it has the sign of the dividend.\<close>

definition js_rem :: "int \<Rightarrow> int \<Rightarrow> int" where
  "js_rem a b = sgn a * (\<bar>a\<bar> mod \<bar>b\<bar>)"

text \<open>
  What the two checks of \<open>loadTexture\<close> ask of the grid: \<open>cols\<close> and \<open>rows\<close> are truthy
  (not zero), \<open>cols % 4 === 0\<close> and \<open>rows % 2 === 0\<close>.
\<close>

definition grid_ok :: "int \<Rightarrow> int \<Rightarrow> bool" where
  "grid_ok cols rows \<longleftrightarrow> cols \<noteq> 0 \<and> rows \<noteq> 0 \<and> js_rem cols 4 = 0 \<and> js_rem rows 2 = 0"

definition new_canvas :: "Adapter \<Rightarrow> Adapter" where
  "new_canvas s =
     s\<lparr>canvases := canvases s @ [[Background]],
       canvas := canvas s @ [length (canvases s)],
       textures := textures s @ [0]\<rparr>"

text \<open>
  \<open>loadTexture\<close>, with \<open>debug\<close> off. The two checks come first and return a rejected
  promise; on \<open>null\<close>, whose \<open>typeof\<close> is \<open>'object'\<close>, reading \<open>panorama.width\<close> throws. Then the tile sizes are set, the queue is cleared, the tile record, the textures
  and the canvases are emptied and eight canvases with their textures are created.
  \<open>Resolved\<close> stands for the promise of the texture data; the drawing of the base image and
  the deferred first \<open>__refresh\<close> are later events.
\<close>

definition loadTexture :: "panorama_arg \<Rightarrow> Adapter \<Rightarrow> load_result \<times> Adapter" where
  "loadTexture arg s =
     (case arg of
        NotAnObject \<Rightarrow>
          (Rejected ''Invalid panorama configuration, are you using the right adapter?.'', s)
      | Null \<Rightarrow> (Thrown, s)
      | PanoramaObject p \<Rightarrow>
          if falsy (panorama_width p) \<or> falsy (panorama_cols p) \<or> falsy (panorama_rows p)
             \<or> panorama_tileUrl p = None
          then (Rejected ''Invalid panorama configuration, are you using the right adapter?.'', s)
          else if js_rem (the (panorama_cols p)) 4 \<noteq> 0 \<or> js_rem (the (panorama_rows p)) 2 \<noteq> 0
          then (Rejected ''Panorama cols must be multiple of 4 and rows must be multiple of 2.'', s)
          else
            (let width = the (panorama_width p);
                 cols = the (panorama_cols p);
                 rows = the (panorama_rows p);
                 height = (of_int width :: real) / 2;
                 s1 = s\<lparr>colSize := of_int width / of_int cols, rowSize := height / of_int rows\<rparr>;
                 s2 = Queue_clear s1;
                 s3 = s2\<lparr>tiles := {}, textures := [], canvas := []\<rparr>;
                 s4 = fold (\<lambda>i. new_canvas) [0..<8] s3
             in (Resolved, s4\<lparr>panorama := Some (cols, rows)\<rparr>)))"

section \<open>The visibility refresh\<close>

text \<open>
  The body of the inner \<open>forEach\<close> of \<open>__refresh\<close>: \<open>find\<close> returns the first candidate with
  the tile's row and column, whose angle is lowered to the minimum; without one the tile is
  pushed with the sample's angle.
\<close>

fun merge_candidate :: "real \<Rightarrow> tile_pos \<Rightarrow> Tile list \<Rightarrow> Tile list" where
  "merge_candidate a tile [] = [\<lparr>col = col tile, row = row tile, angle = a\<rparr>]"
| "merge_candidate a tile (c # cs) =
     (if row c = row tile \<and> col c = col tile
      then c\<lparr>angle := min (angle c) a\<rparr> # cs
      else c # merge_candidate a tile cs)"

text \<open>
  The two loops of \<open>__refresh\<close> visit the lattice of grid corners column by column. The
  camera is outside the sources: \<open>visible c r\<close> stands for the two tests (front hemisphere,
  inside the viewport) on the corner \<open>(c, r)\<close>, and \<open>ang c r\<close> for its \<open>angleTo\<close> the view
  direction.
\<close>

definition sample_points :: "int \<Rightarrow> int \<Rightarrow> (int \<times> int) list" where
  "sample_points cols rows = concat (map (\<lambda>c. map (\<lambda>r. (c, r)) [0..rows]) [0..cols])"

definition visit_sample ::
  "(int \<Rightarrow> int \<Rightarrow> bool) \<Rightarrow> (int \<Rightarrow> int \<Rightarrow> real) \<Rightarrow> int \<Rightarrow> int \<Rightarrow> int \<times> int \<Rightarrow> Tile list \<Rightarrow> Tile list"
where
  "visit_sample visible ang cols rows p tilesToLoad =
     (if visible (fst p) (snd p)
      then fold (merge_candidate (ang (fst p) (snd p))) (getAdjacentTiles cols rows (fst p) (snd p)) tilesToLoad
      else tilesToLoad)"

definition tilesToLoad ::
  "(int \<Rightarrow> int \<Rightarrow> bool) \<Rightarrow> (int \<Rightarrow> int \<Rightarrow> real) \<Rightarrow> int \<Rightarrow> int \<Rightarrow> Tile list"
where
  "tilesToLoad visible ang cols rows =
     fold (visit_sample visible ang cols rows) (sample_points cols rows) []"

text \<open>\<open>__refresh\<close>; reading \<open>panorama.cols\<close> throws when no panorama is configured, and
  nothing has changed by then.\<close>

definition refresh :: "(int \<Rightarrow> int \<Rightarrow> bool) \<Rightarrow> (int \<Rightarrow> int \<Rightarrow> real) \<Rightarrow> Adapter \<Rightarrow> Adapter" where
  "refresh visible ang s =
     (case panorama s of
        None \<Rightarrow> s
      | Some (cols, rows) \<Rightarrow> loadTiles (tilesToLoad visible ang cols rows) s)"

section \<open>Events\<close>

text \<open>
  What happens to an adapter, one event at a time: a call of \<open>loadTexture\<close>, a refresh (on a
  position or zoom update) for a given camera, a call of \<open>__loadTiles\<close> with a given
  candidate list, and the settlement of a pending fetch.
\<close>

datatype event =
    LoadTexture panorama_arg
  | Refresh "int \<Rightarrow> int \<Rightarrow> bool" "int \<Rightarrow> int \<Rightarrow> real"
  | LoadTiles "Tile list"
  | Settle nat bool

fun step :: "event \<Rightarrow> Adapter \<Rightarrow> Adapter" where
  "step (LoadTexture arg) s = snd (loadTexture arg s)"
| "step (Refresh visible ang) s = refresh visible ang s"
| "step (LoadTiles tls) s = loadTiles tls s"
| "step (Settle a ok) s = settle a ok s"

definition run :: "event list \<Rightarrow> Adapter \<Rightarrow> Adapter" where
  "run es s = fold step es s"

fun is_LoadTexture :: "event \<Rightarrow> bool" where
  "is_LoadTexture (LoadTexture arg) = True"
| "is_LoadTexture e = False"

definition count_status :: "STATUS \<Rightarrow> Adapter \<Rightarrow> nat" where
  "count_status st s = length (filter (\<lambda>t. status t = st) (heap s))"

section \<open>Auxiliary notions for the proofs\<close>

text \<open>
  One round of \<open>Queue.start\<close> on a selected entry \<open>e\<close>: the entry in \<open>runningTasks\<close> and
  \<open>Task.start\<close>; \<open>outcome\<close> is the state the round leaves, thrown or not.
\<close>

definition start_next :: "tile_id \<times> nat \<Rightarrow> Adapter \<Rightarrow> Adapter + Adapter" where
  "start_next e s =
     Task_start (snd e) (s\<lparr>runningTasks := AList.update (fst e) True (runningTasks s)\<rparr>)"

definition outcome :: "Adapter + Adapter \<Rightarrow> Adapter" where
  "outcome r = (case r of Inl s \<Rightarrow> s | Inr s \<Rightarrow> s)"



text \<open>A small panorama, 4 columns by 2 rows, for the concrete runs.\<close>

definition small_panorama :: panorama_arg where
  "small_panorama =
     PanoramaObject
       \<lparr>panorama_width = Some 4000, panorama_cols = Some 4, panorama_rows = Some 2,
        panorama_tileUrl = Some (\<lambda>c r. ''tile''), panorama_baseUrl = None\<rparr>"

text \<open>The state inside \<open>__loadTiles\<close>, before \<open>queue.start()\<close>, when two tiles were submitted
  to a freshly loaded small panorama.\<close>

definition two_pending :: Adapter where
  "two_pending =
     fold loadTile [\<lparr>col = 0, row = 0, angle = 1 / 2\<rparr>, \<lparr>col = 1, row = 0, angle = 0\<rparr>]
       (snd (loadTexture small_panorama constructor))"


text \<open>The three statuses after which a task is settled.\<close>

definition terminal :: "STATUS \<Rightarrow> bool" where
  "terminal st \<longleftrightarrow> st = CANCELLED \<or> st = DONE \<or> st = ERROR"

text \<open>
  How the store of tasks may change: tasks are only added; a task keeps its id and its
  tile; and its status stays, goes from \<open>PENDING\<close> to \<open>RUNNING\<close>, or becomes terminal.
\<close>

definition evolves :: "Task list \<Rightarrow> Task list \<Rightarrow> bool" where
  "evolves h h' \<longleftrightarrow>
     length h \<le> length h' \<and>
     (\<forall>a < length h.
        task_id (h' ! a) = task_id (h ! a) \<and> fn_tile (h' ! a) = fn_tile (h ! a) \<and>
        (status (h' ! a) = status (h ! a)
         \<or> (status (h ! a) = PENDING \<and> status (h' ! a) = RUNNING)
         \<or> terminal (status (h' ! a))))"

text \<open>Two tiles submitted to a freshly loaded small panorama and both started.\<close>

definition two_running :: Adapter where
  "two_running =
     run [LoadTexture small_panorama,
          LoadTiles [\<lparr>col = 0, row = 0, angle = 1 / 2\<rparr>, \<lparr>col = 1, row = 0, angle = 0\<rparr>]]
       constructor"

text \<open>
  Well-formedness of the adapter: the task map refers to allocated tasks under their own id,
  has each id once and only ids recorded in \<open>props.tiles\<close>; a pending fetch belongs to an
  allocated task and knows a texture of the current array; there are as many textures as
  canvases, none or eight.
\<close>

definition wf :: "Adapter \<Rightarrow> bool" where
  "wf s \<longleftrightarrow>
     (\<forall>e \<in> set (tasks s). snd e < length (heap s) \<and> task_id (heap s ! snd e) = fst e)
     \<and> distinct (map fst (tasks s))
     \<and> fst ` set (tasks s) \<subseteq> tiles s
     \<and> (\<forall>f \<in> set (fetches s). f_task f < length (heap s) \<and> f_canvasIdx f < length (textures s))
     \<and> length (textures s) = length (canvas s)
     \<and> (canvas s = [] \<or> length (canvas s) = 8)"

text \<open>
  The tasks created since a moment at which the store held \<open>n\<close> tasks and \<open>props.tiles\<close>
  was \<open>T\<close>: they have pairwise different ids, their ids are exactly the ids recorded in
  \<open>props.tiles\<close> since then, and each has the id of the tile it draws.
\<close>

definition created :: "tile_id set \<Rightarrow> nat \<Rightarrow> Adapter \<Rightarrow> bool" where
  "created T n s \<longleftrightarrow>
     n \<le> length (heap s) \<and> T \<subseteq> tiles s
     \<and> (\<forall>a b. n \<le> a \<and> a < length (heap s) \<and> n \<le> b \<and> b < length (heap s)
            \<and> task_id (heap s ! a) = task_id (heap s ! b) \<longrightarrow> a = b)
     \<and> (\<forall>i. i \<in> tiles s - T \<longleftrightarrow> (\<exists>a. n \<le> a \<and> a < length (heap s) \<and> task_id (heap s ! a) = i))
     \<and> (\<forall>a. n \<le> a \<and> a < length (heap s) \<longrightarrow> tileId (fn_tile (heap s ! a)) = task_id (heap s ! a))"

text \<open>
  The urls requested since a moment at which the store held \<open>n\<close> tasks and the log \<open>m\<close>
  entries, the task map being empty then: the map holds only tasks created since, and
  every tile requested since is requested once, by a task created since that is no longer
  pending.
\<close>

definition requested :: "nat \<Rightarrow> nat \<Rightarrow> Adapter \<Rightarrow> bool" where
  "requested n m s \<longleftrightarrow>
     m \<le> length (loads s)
     \<and> (\<forall>e \<in> set (tasks s). n \<le> snd e)
     \<and> distinct (drop m (loads s))
     \<and> (\<forall>i \<in> set (drop m (loads s)).
           \<exists>a. n \<le> a \<and> a < length (heap s) \<and> task_id (heap s ! a) = i \<and> status (heap s ! a) \<noteq> PENDING)"

text \<open>
  A refresh for a camera that looks straight at the grid corner \<open>(1, 1)\<close>, the only corner
  inside the viewport.
\<close>

definition corner_view :: event where
  "corner_view = Refresh (\<lambda>c r. c = 1 \<and> r = 1) (\<lambda>c r. 0)"

section \<open>Theorems\<close>

lemma wrapTile_spec:
  assumes "cols mod 4 = 0" "4 \<le> cols" "-1 \<le> c" "c \<le> cols"
  shows "pos_pair (wrapTile cols rows \<lparr>col = c, row = r\<rparr>) = wrap_spec cols rows (c, r)"
proof -
  have m1: "x mod cols = x" if "0 \<le> x" "x < cols" for x
    using that by simp
  have m2: "x mod cols = x - cols" if "cols \<le> x" "x < 2 * cols" for x
  proof -
    have "(x - cols) mod cols = x - cols" using that by (intro mod_pos_pos_trivial) linarith+
    moreover have "(x - cols + cols) mod cols = (x - cols) mod cols" by (rule mod_add_self2)
    ultimately show ?thesis by simp
  qed
  have m3: "x mod cols = x + cols" if "- cols \<le> x" "x < 0" for x
  proof -
    have "(x + cols) mod cols = x + cols" using that by (intro mod_pos_pos_trivial) linarith+
    moreover have "(x + cols) mod cols = x mod cols" by (rule mod_add_self2)
    ultimately show ?thesis by simp
  qed
  have h: "2 * (cols div 2) = cols" using assms(1) by presburger
  consider "c = -1" | "0 \<le> c" "c + cols div 2 < cols" | "0 \<le> c" "cols \<le> c + cols div 2" "c < cols" | "c = cols"
    using assms by linarith
  then show ?thesis
  proof cases
    case 1
    have a: "(-1) mod cols = cols - 1" using m3[of "-1"] assms by simp
    have b: "(cols div 2 - 1) mod cols = cols div 2 - 1" using m1[of "cols div 2 - 1"] assms h by linarith
    show ?thesis using 1 a b assms h
      by (auto simp: wrapTile_def wrap_spec_def pos_pair_def Let_def)
  next
    case 2
    have a: "c mod cols = c" using m1[of c] 2 h assms by linarith
    have b: "(c + cols div 2) mod cols = c + cols div 2" using m1[of "c + cols div 2"] 2 assms by linarith
    show ?thesis using 2 a b assms h
      by (auto simp: wrapTile_def wrap_spec_def pos_pair_def Let_def)
  next
    case 3
    have a: "c mod cols = c" using m1[of c] 3 by linarith
    have b: "(c + cols div 2) mod cols = c + cols div 2 - cols" using m2[of "c + cols div 2"] 3 h by linarith
    show ?thesis using 3 a b assms h
      by (auto simp: wrapTile_def wrap_spec_def pos_pair_def Let_def)
  next
    case 4
    have b: "(cols + cols div 2) mod cols = cols div 2" using m2[of "cols + cols div 2"] h assms by linarith
    show ?thesis using 4 b assms h
      by (auto simp: wrapTile_def wrap_spec_def pos_pair_def Let_def)
  qed
qed

lemma js_rem_eq_0_iff: "0 < b \<Longrightarrow> js_rem a b = 0 \<longleftrightarrow> a mod b = 0"
  unfolding js_rem_def
  by (auto simp: sgn_if abs_if zmod_zminus1_not_zero dest: zmod_zminus1_not_zero) 

lemma wrap_spec_range:
  assumes "0 < cols" "0 < rows" "-1 \<le> r" "r \<le> rows"
  shows "0 \<le> fst (wrap_spec cols rows (c, r)) \<and> fst (wrap_spec cols rows (c, r)) < cols
       \<and> 0 \<le> snd (wrap_spec cols rows (c, r)) \<and> snd (wrap_spec cols rows (c, r)) < rows"
  using assms by (auto simp: wrap_spec_def)

text \<open>
  Claim C3. For a grid that \<open>loadTexture\<close> accepts and a sample point \<open>(c, r)\<close> with
  \<open>0 \<le> c \<le> cols\<close> and \<open>0 \<le> r \<le> rows\<close>, \<open>__getAdjacentTiles\<close> returns the four tiles with
  corners \<open>(c-1, r-1)\<close>, \<open>(c, r-1)\<close>, \<open>(c, r)\<close>, \<open>(c-1, r)\<close>, each wrapped as the
  specification says (a row below 0 or from \<open>rows\<close> on is reflected and the column shifted by
  \<open>cols/2\<close>, then the column is reduced modulo \<open>cols\<close>); every returned tile lies in
  \<open>[0, cols) \<times> [0, rows)\<close>; and for \<open>cols = 16\<close>, \<open>rows = 8\<close> the tiles \<open>(0,-1)\<close>, \<open>(0,8)\<close>,
  \<open>(-1,3)\<close> wrap to \<open>(8,0)\<close>, \<open>(8,7)\<close>, \<open>(15,3)\<close>.
\<close>

theorem C3_getAdjacentTiles:
  assumes "grid_ok cols rows" "0 \<le> c" "c \<le> cols" "0 \<le> r" "r \<le> rows"
  shows "map pos_pair (getAdjacentTiles cols rows c r)
           = map (wrap_spec cols rows) [(c - 1, r - 1), (c, r - 1), (c, r), (c - 1, r)]
       \<and> (\<forall>t \<in> set (getAdjacentTiles cols rows c r).
             0 \<le> col t \<and> col t < cols \<and> 0 \<le> row t \<and> row t < rows)
       \<and> pos_pair (wrapTile 16 8 \<lparr>col = 0, row = -1\<rparr>) = (8, 0)
       \<and> pos_pair (wrapTile 16 8 \<lparr>col = 0, row = 8\<rparr>) = (8, 7)
       \<and> pos_pair (wrapTile 16 8 \<lparr>col = -1, row = 3\<rparr>) = (15, 3)"
proof -
  have c4: "cols mod 4 = 0" and r2: "rows mod 2 = 0" and c0: "cols \<noteq> 0" and r0: "rows \<noteq> 0"
    using assms(1) by (auto simp: grid_ok_def js_rem_eq_0_iff)
  have cols: "4 \<le> cols" using c4 c0 assms(2,3) by presburger
  have rows: "2 \<le> rows" using r2 r0 assms(4,5) by presburger
  have eq: "pos_pair (wrapTile cols rows \<lparr>col = x, row = y\<rparr>) = wrap_spec cols rows (x, y)"
    if "-1 \<le> x" "x \<le> cols" for x y
    using wrapTile_spec[OF c4 cols that] .
  have 1: "map pos_pair (getAdjacentTiles cols rows c r)
           = map (wrap_spec cols rows) [(c - 1, r - 1), (c, r - 1), (c, r), (c - 1, r)]"
    using assms(2,3) by (simp add: getAdjacentTiles_def eq)
  have rng: "0 \<le> col (wrapTile cols rows \<lparr>col = x, row = y\<rparr>) \<and> col (wrapTile cols rows \<lparr>col = x, row = y\<rparr>) < cols
       \<and> 0 \<le> row (wrapTile cols rows \<lparr>col = x, row = y\<rparr>) \<and> row (wrapTile cols rows \<lparr>col = x, row = y\<rparr>) < rows"
    if "-1 \<le> x" "x \<le> cols" "-1 \<le> y" "y \<le> rows" for x y
  proof -
    have "0 < cols" "0 < rows" using cols rows by auto
    from wrap_spec_range[OF this that(3,4), of x] eq[OF that(1,2), of y, symmetric]
    show ?thesis by (simp add: pos_pair_def)
  qed
  have 2: "\<forall>t \<in> set (getAdjacentTiles cols rows c r).
             0 \<le> col t \<and> col t < cols \<and> 0 \<le> row t \<and> row t < rows"
    using assms(2-5) by (simp add: getAdjacentTiles_def rng)
  have 3: "pos_pair (wrapTile 16 8 \<lparr>col = 0, row = -1\<rparr>) = (8, 0)"
       "pos_pair (wrapTile 16 8 \<lparr>col = 0, row = 8\<rparr>) = (8, 7)"
       "pos_pair (wrapTile 16 8 \<lparr>col = -1, row = 3\<rparr>) = (15, 3)"
    by (simp_all add: wrapTile_def pos_pair_def)
  show ?thesis using 1 2 3 by blast
qed

theorem C3_getAdjacentTiles_witness:
  "grid_ok 16 8 \<and> map pos_pair (getAdjacentTiles 16 8 0 8) = [(15, 7), (0, 7), (8, 7), (7, 7)]"
  using C3_getAdjacentTiles[of 16 8 0 8]
  by (simp add: grid_ok_def js_rem_def wrap_spec_def)

section \<open>The queue\<close>

lemma Queue_start_rule [consumes 1, case_names start]:
  assumes "P s"
    and "\<And>s e. \<lbrakk>P s; length (runningTasks s) < concurency s; nextTask s = Some e\<rbrakk>
           \<Longrightarrow> P (outcome (start_next e s))"
  shows "P (Queue_start s)"
  using assms(1)
proof (induction s rule: Queue_start.induct)
  case (1 s)
  show ?case
  proof (cases "concurency s \<le> length (runningTasks s)")
    case True
    then show ?thesis using 1(2) by (simp add: Queue_start.simps)
  next
    case free: False
    show ?thesis
    proof (cases "nextTask s")
      case None
      then show ?thesis using free 1(2) by (simp add: Queue_start.simps)
    next
      case (Some e)
      have P': "P (outcome (start_next e s))"
        using assms(2)[OF 1(2) _ Some] free by simp
      show ?thesis
      proof (cases "start_next e s")
        case (Inl thrown)
        then show ?thesis using free Some P'
          by (simp add: Queue_start.simps[of s] start_next_def outcome_def)
      next
        case (Inr s3)
        have "P (Queue_start s3)"
          using 1(1)[OF free Some, of s3] Inr P' by (simp add: start_next_def outcome_def)
        then show ?thesis using free Some Inr
          by (simp add: Queue_start.simps[of s] start_next_def)
      qed
    qed
  qed
qed

lemma outcome_start_next:
  "heap (outcome (start_next e s)) = (heap s)[snd e := (heap s ! snd e)\<lparr>status := RUNNING\<rparr>]"
  "tasks (outcome (start_next e s)) = tasks s"
  "tiles (outcome (start_next e s)) = tiles s"
  "runningTasks (outcome (start_next e s)) = AList.update (fst e) True (runningTasks s)"
  "concurency (outcome (start_next e s)) = concurency s"
  "canvases (outcome (start_next e s)) = canvases s"
  "canvas (outcome (start_next e s)) = canvas s"
  "textures (outcome (start_next e s)) = textures s"
  "panorama (outcome (start_next e s)) = panorama s"
  "colSize (outcome (start_next e s)) = colSize s"
  "rowSize (outcome (start_next e s)) = rowSize s"
  by (auto simp: outcome_def start_next_def Task_start_def Let_def set_status_def split: option.splits)




lemma Queue_start_field:
  assumes "\<And>e s. g (outcome (start_next e s)) = g s"
  shows "g (Queue_start s) = g s"
proof -
  have "g s = g s" ..
  then show ?thesis
    by (rule Queue_start_rule[where P = "\<lambda>s'. g s' = g s"]) (simp add: assms)
qed

lemma Queue_start_tasks [simp]: "tasks (Queue_start s) = tasks s"
  by (rule Queue_start_field) (simp add: outcome_start_next)

lemma Queue_start_tiles [simp]: "tiles (Queue_start s) = tiles s"
  by (rule Queue_start_field) (simp add: outcome_start_next)

lemma Queue_start_concurency [simp]: "concurency (Queue_start s) = concurency s"
  by (rule Queue_start_field) (simp add: outcome_start_next)

lemma Queue_start_length_heap [simp]: "length (heap (Queue_start s)) = length (heap s)"
  by (rule Queue_start_field[where g = "\<lambda>s. length (heap s)"]) (simp add: outcome_start_next)

lemma Queue_start_canvases [simp]: "canvases (Queue_start s) = canvases s"
  by (rule Queue_start_field) (simp add: outcome_start_next)

lemma Queue_start_canvas [simp]: "canvas (Queue_start s) = canvas s"
  by (rule Queue_start_field) (simp add: outcome_start_next)

lemma Queue_start_textures [simp]: "textures (Queue_start s) = textures s"
  by (rule Queue_start_field) (simp add: outcome_start_next)

lemma Queue_start_panorama [simp]: "panorama (Queue_start s) = panorama s"
  by (rule Queue_start_field) (simp add: outcome_start_next)


lemma Queue_start_status:
  "a < length (heap s) \<Longrightarrow> heap (Queue_start s) ! a = heap s ! a \<or> (status (heap s ! a) = PENDING \<and> heap (Queue_start s) ! a = (heap s ! a)\<lparr>status := RUNNING\<rparr>)"
proof -
  assume a: "a < length (heap s)"
  let ?Q = "\<lambda>s'. length (heap s') = length (heap s) \<and> (heap s' ! a = heap s ! a \<or> (status (heap s ! a) = PENDING \<and> heap s' ! a = (heap s ! a)\<lparr>status := RUNNING\<rparr>))"
  have "?Q s" by simp
  then have "?Q (Queue_start s)"
  proof (induction rule: Queue_start_rule[where P = ?Q])
    case (start s' e)
    have el: "eligible (heap s') e" using nextTask_Some[OF start(3)] by simp
    show ?case
    proof (cases "snd e = a")
      case True
      then show ?thesis using start(1) el a by (auto simp: outcome_start_next eligible_def)
    next
      case False
      then show ?thesis using start(1) by (simp add: outcome_start_next)
    qed
  qed
  then show ?thesis by simp
qed



section \<open>Concrete runs\<close>

lemmas run_simps = small_panorama_def loadTexture_def falsy_def js_rem_def Queue_clear_def Task_cancel_def
  set_status_def new_canvas_def constructor_def QUEUE_CONCURENCY_def Let_def loadTiles_def loadTile_def
  Queue_setAllPriorities_def Queue_setPriority_def set_priority_def Queue_enqueue_def new_Task_def tileId_def
  Queue_start.simps nextTask_def eligible_def Task_start_def drawTile_begin_def canvasIdx_def
  settle_def finish_fetch_def run_def upt_rec

lemma one_less_pi: "1 < pi"
  using pi_ge_two by linarith

lemma two_pending_next: "nextTask two_pending = Some ((1, 0), 1)"
  by (simp add: two_pending_def run_simps one_less_pi)

section \<open>Selection by priority\<close>


section \<open>Validation of the configuration\<close>








section \<open>How tasks evolve\<close>

lemma evolves_refl [simp]: "evolves h h"
  by (simp add: evolves_def)

lemma evolves_trans: "evolves h h' \<Longrightarrow> evolves h' h'' \<Longrightarrow> evolves h h''"
  unfolding evolves_def
proof (intro conjI allI impI)
  assume a: "length h \<le> length h' \<and> (\<forall>a<length h. task_id (h' ! a) = task_id (h ! a) \<and> fn_tile (h' ! a) = fn_tile (h ! a) \<and>
        (status (h' ! a) = status (h ! a) \<or> (status (h ! a) = PENDING \<and> status (h' ! a) = RUNNING) \<or> terminal (status (h' ! a))))"
    and b: "length h' \<le> length h'' \<and> (\<forall>a<length h'. task_id (h'' ! a) = task_id (h' ! a) \<and> fn_tile (h'' ! a) = fn_tile (h' ! a) \<and>
        (status (h'' ! a) = status (h' ! a) \<or> (status (h' ! a) = PENDING \<and> status (h'' ! a) = RUNNING) \<or> terminal (status (h'' ! a))))"
  show "length h \<le> length h''" using a b by simp
  fix x assume x: "x < length h"
  then have x': "x < length h'" using a by simp
  show "task_id (h'' ! x) = task_id (h ! x)" using a b x x' by simp
  show "fn_tile (h'' ! x) = fn_tile (h ! x)" using a b x x' by simp
  have 1: "status (h' ! x) = status (h ! x) \<or> (status (h ! x) = PENDING \<and> status (h' ! x) = RUNNING) \<or> terminal (status (h' ! x))"
    using a x by blast
  have 2: "status (h'' ! x) = status (h' ! x) \<or> (status (h' ! x) = PENDING \<and> status (h'' ! x) = RUNNING) \<or> terminal (status (h'' ! x))"
    using b x' by blast
  show "status (h'' ! x) = status (h ! x) \<or> (status (h ! x) = PENDING \<and> status (h'' ! x) = RUNNING) \<or> terminal (status (h'' ! x))"
    using 1 2 by (auto simp: terminal_def)
qed

lemma evolves_update:
  assumes "a < length h \<Longrightarrow> task_id t = task_id (h ! a) \<and> fn_tile t = fn_tile (h ! a)
             \<and> (status t = status (h ! a) \<or> (status (h ! a) = PENDING \<and> status t = RUNNING) \<or> terminal (status t))"
  shows "evolves h (h[a := t])"
  unfolding evolves_def
proof (intro conjI allI impI)
  show "length h \<le> length (h[a := t])" by simp
  fix x
  assume x: "x < length h"
  show "task_id (h[a := t] ! x) = task_id (h ! x)"
    using assms x by (cases "x = a") simp_all
  show "fn_tile (h[a := t] ! x) = fn_tile (h ! x)"
    using assms x by (cases "x = a") simp_all
  show "status (h[a := t] ! x) = status (h ! x)
        \<or> (status (h ! x) = PENDING \<and> status (h[a := t] ! x) = RUNNING)
        \<or> terminal (status (h[a := t] ! x))"
    using assms x by (cases "x = a") simp_all
qed

lemma evolves_append [simp]: "evolves h (h @ ts)"
  by (simp add: evolves_def nth_append)

lemma evolves_terminal:
  "evolves h h' \<Longrightarrow> a < length h \<Longrightarrow> terminal (status (h ! a)) \<Longrightarrow> terminal (status (h' ! a))"
  by (auto simp: evolves_def terminal_def)

lemma fold_evolves:
  assumes "\<And>x s. evolves (heap s) (heap (f x s))"
  shows "evolves (heap s) (heap (fold f xs s))"
proof (induction xs arbitrary: s)
  case Nil
  show ?case by simp
next
  case (Cons x xs)
  show ?case using evolves_trans[OF assms[of s x] Cons[of "f x s"]] by simp
qed

lemma set_status_evolves:
  "terminal st \<or> (a < length (heap s) \<longrightarrow> status (heap s ! a) = PENDING \<and> st = RUNNING)
   \<Longrightarrow> evolves (heap s) (heap (set_status a st s))"
  unfolding set_status_def by (auto intro!: evolves_update)

lemma set_priority_evolves [simp]: "evolves (heap s) (heap (set_priority p a s))"
  unfolding set_priority_def by (auto intro!: evolves_update)

lemma Task_cancel_evolves [simp]: "evolves (heap s) (heap (Task_cancel a s))"
  unfolding Task_cancel_def by (rule set_status_evolves) (simp add: terminal_def)

lemma Queue_clear_evolves [simp]: "evolves (heap s) (heap (Queue_clear s))"
proof -
  have "evolves (heap (s\<lparr>tasks := [], runningTasks := []\<rparr>))
          (heap (fold Task_cancel (map snd (tasks s)) (s\<lparr>tasks := [], runningTasks := []\<rparr>)))"
    by (rule fold_evolves) simp
  then show ?thesis by (simp add: Queue_clear_def Let_def)
qed

lemma Queue_setPriority_evolves [simp]: "evolves (heap s) (heap (Queue_setPriority i p s))"
  by (simp add: Queue_setPriority_def split: option.splits)

lemma Queue_setAllPriorities_evolves [simp]: "evolves (heap s) (heap (Queue_setAllPriorities p s))"
  unfolding Queue_setAllPriorities_def by (rule fold_evolves) simp

lemma loadTile_evolves [simp]: "evolves (heap s) (heap (loadTile tile s))"
  by (simp add: loadTile_def Let_def Queue_enqueue_def)

lemma Queue_start_evolves [simp]: "evolves (heap s) (heap (Queue_start s))"
proof -
  have "evolves (heap s) (heap s)" by simp
  then show ?thesis
  proof (rule Queue_start_rule[where P = "\<lambda>s'. evolves (heap s) (heap s')"])
    fix s' e
    assume ev: "evolves (heap s) (heap s')" and n: "nextTask s' = Some e"
    have "eligible (heap s') e" using nextTask_Some[OF n] by simp
    then have "evolves (heap s') (heap (outcome (start_next e s')))"
      by (auto simp: outcome_start_next eligible_def intro!: evolves_update)
    with ev show "evolves (heap s) (heap (outcome (start_next e s')))"
      by (rule evolves_trans)
  qed
qed

lemma loadTiles_evolves [simp]: "evolves (heap s) (heap (loadTiles tls s))"
proof -
  have 1: "evolves (heap s) (heap (Queue_setAllPriorities 0 s))" by simp
  have 2: "evolves (heap (Queue_setAllPriorities 0 s)) (heap (fold loadTile tls (Queue_setAllPriorities 0 s)))"
    by (rule fold_evolves) simp
  have 3: "evolves (heap (fold loadTile tls (Queue_setAllPriorities 0 s))) (heap (loadTiles tls s))"
    by (simp add: loadTiles_def)
  show ?thesis using evolves_trans[OF evolves_trans[OF 1 2] 3] .
qed

lemma finish_fetch_heap:
  "heap (finish_fetch f ok s)
     = (heap s)[f_task f := (heap s ! f_task f)
          \<lparr>status := (if f_canvasIdx f < length (textures s) then DONE else ERROR)\<rparr>]"
  by (simp add: finish_fetch_def Let_def set_status_def)

lemma finish_fetch_evolves [simp]: "evolves (heap s) (heap (finish_fetch f ok s))"
  unfolding finish_fetch_heap by (rule evolves_update) (simp add: terminal_def)

lemma settle_evolves [simp]: "evolves (heap s) (heap (settle a ok s))"
proof (cases "find (\<lambda>f. f_task f = a) (fetches s)")
  case None
  then show ?thesis by (simp add: settle_def)
next
  case (Some f)
  have "evolves (heap s) (heap (Queue_start (finish_fetch f ok s)))"
    using finish_fetch_evolves Queue_start_evolves by (rule evolves_trans)
  then show ?thesis using Some by (simp add: settle_def)
qed

lemma fold_new_canvas_heap [simp]: "heap (fold (\<lambda>i. new_canvas) xs s) = heap s"
  by (induction xs arbitrary: s) (simp_all add: new_canvas_def)

lemma loadTexture_evolves [simp]: "evolves (heap s) (heap (snd (loadTexture arg s)))"
proof (cases "fst (loadTexture arg s) = Resolved")
  case False
  then have "snd (loadTexture arg s) = s"
    by (auto simp: loadTexture_def Let_def split: panorama_arg.splits if_splits)
  then show ?thesis by simp
next
  case True
  then obtain s1 where "heap (snd (loadTexture arg s)) = heap (Queue_clear s1)" "heap s1 = heap s"
    by (auto simp: loadTexture_def Let_def split: panorama_arg.splits if_splits)
  then show ?thesis using Queue_clear_evolves[of s1] by simp
qed

lemma refresh_evolves [simp]: "evolves (heap s) (heap (refresh visible ang s))"
  by (simp add: refresh_def split: option.splits prod.splits)

lemma step_evolves [simp]: "evolves (heap s) (heap (step e s))"
  by (cases e) simp_all

lemma run_evolves [simp]: "evolves (heap s) (heap (run es s))"
  unfolding run_def by (rule fold_evolves) simp

section \<open>Clearing the queue\<close>

lemma fold_Task_cancel_fields [simp]:
  "tasks (fold Task_cancel as s) = tasks s"
  "runningTasks (fold Task_cancel as s) = runningTasks s"
  "length (heap (fold Task_cancel as s)) = length (heap s)"
  by (induction as arbitrary: s) (simp_all add: Task_cancel_def set_status_def)

lemma fold_Task_cancel_status:
  "a \<in> set as \<Longrightarrow> a < length (heap s) \<Longrightarrow> status (heap (fold Task_cancel as s) ! a) = CANCELLED"
proof (induction as arbitrary: s)
  case Nil
  then show ?case by simp
next
  case (Cons x xs)
  let ?s1 = "Task_cancel x s"
  have len: "a < length (heap ?s1)" using Cons.prems by (simp add: Task_cancel_def set_status_def)
  show ?case
  proof (cases "a \<in> set xs")
    case True
    then show ?thesis using Cons.IH[OF True len] by simp
  next
    case False
    then have ax: "a = x" using Cons.prems by simp
    have c: "status (heap ?s1 ! a) = CANCELLED"
      using Cons.prems ax by (simp add: Task_cancel_def set_status_def)
    have "status (heap (fold Task_cancel xs ?s1) ! a) = status (heap ?s1 ! a)"
      using False len
    proof (induction xs arbitrary: s rule: rev_induct)
      case Nil then show ?case by simp
    next
      case (snoc y ys)
      then show ?case by (simp add: Task_cancel_def set_status_def nth_list_update)
    qed
    then show ?thesis using c by simp
  qed
qed

lemma Queue_clear_maps [simp]:
  "tasks (Queue_clear s) = []" "runningTasks (Queue_clear s) = []"
  by (simp_all add: Queue_clear_def Let_def)

lemma Queue_clear_status:
  "e \<in> set (tasks s) \<Longrightarrow> snd e < length (heap s) \<Longrightarrow> status (heap (Queue_clear s) ! snd e) = CANCELLED"
  by (simp add: Queue_clear_def Let_def fold_Task_cancel_status)

lemma Queue_clear_length [simp]: "length (heap (Queue_clear s)) = length (heap s)"
  by (simp add: Queue_clear_def Let_def)

lemma loadTiles_Nil_cleared: "tasks s = [] \<Longrightarrow> loadTiles [] s = s"
  by (simp add: loadTiles_def Queue_setAllPriorities_def Queue_start.simps[of s] nextTask_def)

text \<open>
  Claim C8. \<open>Queue.clear\<close> leaves the task map and the running-task map empty and every task
  that was in the task map cancelled; whatever happens afterwards (settlements included),
  such a task never leaves the terminal statuses, so it is never started again; and
  \<open>__loadTiles([])\<close> right after \<open>clear\<close> leaves both maps empty, the running count at 0.
\<close>

theorem C8_clear:
  "tasks (Queue_clear s) = [] \<and> runningTasks (Queue_clear s) = []
   \<and> (\<forall>e \<in> set (tasks s). snd e < length (heap s) \<longrightarrow>
         status (heap (Queue_clear s) ! snd e) = CANCELLED
         \<and> (\<forall>es. terminal (status (heap (run es (Queue_clear s)) ! snd e))))
   \<and> tasks (loadTiles [] (Queue_clear s)) = []
   \<and> runningTasks (loadTiles [] (Queue_clear s)) = []
   \<and> length (runningTasks (loadTiles [] (Queue_clear s))) = 0"
proof -
  have c: "status (heap (Queue_clear s) ! snd e) = CANCELLED
         \<and> (\<forall>es. terminal (status (heap (run es (Queue_clear s)) ! snd e)))"
    if "e \<in> set (tasks s)" "snd e < length (heap s)" for e
  proof -
    have 1: "status (heap (Queue_clear s) ! snd e) = CANCELLED"
      using that by (rule Queue_clear_status)
    have "terminal (status (heap (run es (Queue_clear s)) ! snd e))" for es
      by (rule evolves_terminal[OF run_evolves]) (use that 1 in \<open>simp_all add: terminal_def\<close>)
    with 1 show ?thesis by simp
  qed
  have d: "loadTiles [] (Queue_clear s) = Queue_clear s"
    by (rule loadTiles_Nil_cleared) simp
  show ?thesis using c by (simp add: d)
qed

theorem C8_clear_witness:
  "((0, 0), 0) \<in> set (tasks two_running) \<and> 0 < length (heap two_running)
   \<and> status (heap two_running ! 0) = RUNNING
   \<and> status (heap (Queue_clear two_running) ! 0) = CANCELLED
   \<and> terminal (status (heap (run [Settle 0 True] (Queue_clear two_running)) ! 0))"
  using C8_clear[of two_running]
  by (simp add: two_running_def run_simps one_less_pi terminal_def)

section \<open>What each operation changes\<close>

lemma set_status_fields [simp]:
  "tasks (set_status a st s) = tasks s"
  "runningTasks (set_status a st s) = runningTasks s"
  "tiles (set_status a st s) = tiles s"
  "fetches (set_status a st s) = fetches s"
  "loads (set_status a st s) = loads s"
  "canvas (set_status a st s) = canvas s"
  "canvases (set_status a st s) = canvases s"
  "textures (set_status a st s) = textures s"
  "panorama (set_status a st s) = panorama s"
  "concurency (set_status a st s) = concurency s"
  "length (heap (set_status a st s)) = length (heap s)"
  by (simp_all add: set_status_def)

lemma set_priority_fields [simp]:
  "tasks (set_priority p a s) = tasks s"
  "runningTasks (set_priority p a s) = runningTasks s"
  "tiles (set_priority p a s) = tiles s"
  "fetches (set_priority p a s) = fetches s"
  "loads (set_priority p a s) = loads s"
  "canvas (set_priority p a s) = canvas s"
  "canvases (set_priority p a s) = canvases s"
  "textures (set_priority p a s) = textures s"
  "panorama (set_priority p a s) = panorama s"
  "concurency (set_priority p a s) = concurency s"
  "length (heap (set_priority p a s)) = length (heap s)"
  by (simp_all add: set_priority_def)

lemma set_priority_status [simp]:
  "status (heap (set_priority p a s) ! b) = status (heap s ! b)"
  by (cases "a < length (heap s)"; cases "a = b") (simp_all add: set_priority_def list_update_beyond)

lemma fold_set_priority_fields [simp]:
  "tasks (fold (set_priority p) as s) = tasks s"
  "runningTasks (fold (set_priority p) as s) = runningTasks s"
  "tiles (fold (set_priority p) as s) = tiles s"
  "fetches (fold (set_priority p) as s) = fetches s"
  "loads (fold (set_priority p) as s) = loads s"
  "canvas (fold (set_priority p) as s) = canvas s"
  "canvases (fold (set_priority p) as s) = canvases s"
  "textures (fold (set_priority p) as s) = textures s"
  "panorama (fold (set_priority p) as s) = panorama s"
  "concurency (fold (set_priority p) as s) = concurency s"
  "length (heap (fold (set_priority p) as s)) = length (heap s)"
  "status (heap (fold (set_priority p) as s) ! b) = status (heap s ! b)"
  by (induction as arbitrary: s) simp_all

lemma Queue_setAllPriorities_fields [simp]:
  "tasks (Queue_setAllPriorities p s) = tasks s"
  "runningTasks (Queue_setAllPriorities p s) = runningTasks s"
  "tiles (Queue_setAllPriorities p s) = tiles s"
  "fetches (Queue_setAllPriorities p s) = fetches s"
  "loads (Queue_setAllPriorities p s) = loads s"
  "canvas (Queue_setAllPriorities p s) = canvas s"
  "canvases (Queue_setAllPriorities p s) = canvases s"
  "textures (Queue_setAllPriorities p s) = textures s"
  "panorama (Queue_setAllPriorities p s) = panorama s"
  "concurency (Queue_setAllPriorities p s) = concurency s"
  "length (heap (Queue_setAllPriorities p s)) = length (heap s)"
  "status (heap (Queue_setAllPriorities p s) ! b) = status (heap s ! b)"
  by (simp_all add: Queue_setAllPriorities_def)

lemma Queue_setPriority_fields [simp]:
  "tasks (Queue_setPriority i p s) = tasks s"
  "runningTasks (Queue_setPriority i p s) = runningTasks s"
  "tiles (Queue_setPriority i p s) = tiles s"
  "fetches (Queue_setPriority i p s) = fetches s"
  "loads (Queue_setPriority i p s) = loads s"
  "canvas (Queue_setPriority i p s) = canvas s"
  "canvases (Queue_setPriority i p s) = canvases s"
  "textures (Queue_setPriority i p s) = textures s"
  "panorama (Queue_setPriority i p s) = panorama s"
  "concurency (Queue_setPriority i p s) = concurency s"
  "length (heap (Queue_setPriority i p s)) = length (heap s)"
  "status (heap (Queue_setPriority i p s) ! b) = status (heap s ! b)"
  by (simp_all add: Queue_setPriority_def split: option.splits)

lemma loadTile_fields [simp]:
  "runningTasks (loadTile tile s) = runningTasks s"
  "fetches (loadTile tile s) = fetches s"
  "loads (loadTile tile s) = loads s"
  "canvas (loadTile tile s) = canvas s"
  "canvases (loadTile tile s) = canvases s"
  "textures (loadTile tile s) = textures s"
  "panorama (loadTile tile s) = panorama s"
  "concurency (loadTile tile s) = concurency s"
  "tiles (loadTile tile s) = insert (tileId tile) (tiles s)"
  by (auto simp: loadTile_def Let_def Queue_enqueue_def)

lemma fold_loadTile_fields [simp]:
  "runningTasks (fold loadTile tls s) = runningTasks s"
  "fetches (fold loadTile tls s) = fetches s"
  "loads (fold loadTile tls s) = loads s"
  "canvas (fold loadTile tls s) = canvas s"
  "canvases (fold loadTile tls s) = canvases s"
  "textures (fold loadTile tls s) = textures s"
  "panorama (fold loadTile tls s) = panorama s"
  "concurency (fold loadTile tls s) = concurency s"
  "tiles (fold loadTile tls s) = tileId ` set tls \<union> tiles s"
  by (induction tls arbitrary: s) auto

lemma outcome_start_next_fetches:
  "fetches (outcome (start_next e s)) = fetches s \<and> loads (outcome (start_next e s)) = loads s
   \<or> (\<exists>c k. k < length (canvas s)
         \<and> fetches (outcome (start_next e s)) = fetches s @ [\<lparr>f_task = snd e, f_ctx = c, f_canvasIdx = k\<rparr>]
         \<and> loads (outcome (start_next e s)) = loads s @ [tileId (fn_tile (heap s ! snd e))])"
proof (cases "snd e < length (heap s)")
  case True
  then show ?thesis
    by (auto simp: outcome_def start_next_def Task_start_def Let_def set_status_def drawTile_begin_def
        split: option.splits if_splits)
next
  case False
  then show ?thesis
    by (auto simp: outcome_def start_next_def Task_start_def Let_def set_status_def drawTile_begin_def
        list_update_beyond split: option.splits if_splits)
qed

lemma set_update_subset: "set (AList.update k v al) \<subseteq> insert (k, v) (set al)"
  by (induction al) auto

lemma set_delete_subset: "set (AList.delete k al) \<subseteq> set al"
  by (induction al) auto

lemma delete_no_key: "k \<notin> fst ` set (AList.delete k al)"
  by (induction al) auto

section \<open>Well-formedness\<close>

lemma wf_constructor: "wf constructor"
  by (simp add: wf_def constructor_def)

lemma wf_heap_change:
  assumes "wf s" "evolves (heap s) (heap s')" "tasks s' = tasks s" "tiles s' = tiles s"
    "fetches s' = fetches s" "textures s' = textures s" "canvas s' = canvas s"
  shows "wf s'"
proof -
  have len: "length (heap s) \<le> length (heap s')"
    and ids: "\<And>a. a < length (heap s) \<Longrightarrow> task_id (heap s' ! a) = task_id (heap s ! a)"
    using assms(2) by (auto simp: evolves_def)
  have "\<forall>e \<in> set (tasks s'). snd e < length (heap s') \<and> task_id (heap s' ! snd e) = fst e"
  proof
    fix e assume "e \<in> set (tasks s')"
    then have "snd e < length (heap s) \<and> task_id (heap s ! snd e) = fst e"
      using assms(1,3) by (simp add: wf_def)
    then show "snd e < length (heap s') \<and> task_id (heap s' ! snd e) = fst e"
      using len ids[of "snd e"] by simp
  qed
  moreover have "\<forall>f \<in> set (fetches s'). f_task f < length (heap s') \<and> f_canvasIdx f < length (textures s')"
    using assms(1,5,6) len by (fastforce simp: wf_def)
  ultimately show ?thesis using assms(1,3,4,6,7) by (simp add: wf_def)
qed

lemma wf_Queue_setAllPriorities: "wf s \<Longrightarrow> wf (Queue_setAllPriorities p s)"
  by (rule wf_heap_change) simp_all

lemma wf_Queue_setPriority: "wf s \<Longrightarrow> wf (Queue_setPriority i p s)"
  by (rule wf_heap_change) simp_all

lemma wf_loadTile: assumes "wf s" shows "wf (loadTile tile s)"
proof (cases "tileId tile \<in> tiles s")
  case True
  then show ?thesis using wf_Queue_setPriority[OF assms] by (simp add: loadTile_def Let_def)
next
  case False
  define i where "i = tileId tile"
  define t where "t = new_Task i (pi / 2 - angle tile) tile"
  define n where "n = length (heap s)"
  have h: "heap (loadTile tile s) = heap s @ [t]"
    and ts: "tasks (loadTile tile s) = AList.update i n (tasks s)"
    using False by (simp_all add: loadTile_def Let_def Queue_enqueue_def i_def t_def n_def new_Task_def)
  have A: "\<forall>e \<in> set (tasks (loadTile tile s)). snd e < length (heap (loadTile tile s))
             \<and> task_id (heap (loadTile tile s) ! snd e) = fst e"
  proof
    fix e assume "e \<in> set (tasks (loadTile tile s))"
    then consider "e = (i, n)" | "e \<in> set (tasks s)"
      using set_update_subset[of i n "tasks s"] ts by auto
    then show "snd e < length (heap (loadTile tile s)) \<and> task_id (heap (loadTile tile s) ! snd e) = fst e"
    proof cases
      case 1
      then show ?thesis by (simp add: h n_def t_def new_Task_def)
    next
      case 2
      then have "snd e < length (heap s) \<and> task_id (heap s ! snd e) = fst e"
        using assms by (simp add: wf_def)
      then show ?thesis by (simp add: h nth_append)
    qed
  qed
  have B: "distinct (map fst (tasks (loadTile tile s)))"
    using assms by (simp add: ts wf_def distinct_update)
  have C: "fst ` set (tasks (loadTile tile s)) \<subseteq> tiles (loadTile tile s)"
    using assms by (auto simp: ts wf_def dom_update i_def)
  have D: "\<forall>f \<in> set (fetches (loadTile tile s)). f_task f < length (heap (loadTile tile s))
             \<and> f_canvasIdx f < length (textures (loadTile tile s))"
    using assms by (fastforce simp: wf_def h)
  show ?thesis using A B C D assms unfolding wf_def by simp
qed

lemma wf_fold_loadTile: "wf s \<Longrightarrow> wf (fold loadTile tls s)"
  by (induction tls arbitrary: s) (simp_all add: wf_loadTile)

lemma wf_start_next:
  assumes "wf s" "nextTask s = Some e"
  shows "wf (outcome (start_next e s))"
proof -
  let ?s' = "outcome (start_next e s)"
  have el: "e \<in> set (tasks s)" "eligible (heap s) e" using nextTask_Some[OF assms(2)] by auto
  have ev: "evolves (heap s) (heap ?s')"
    using el by (auto simp: outcome_start_next eligible_def intro!: evolves_update)
  have len: "length (heap ?s') = length (heap s)" by (simp add: outcome_start_next)
  have A: "\<forall>x \<in> set (tasks ?s'). snd x < length (heap ?s') \<and> task_id (heap ?s' ! snd x) = fst x"
  proof
    fix x assume "x \<in> set (tasks ?s')"
    then have "snd x < length (heap s) \<and> task_id (heap s ! snd x) = fst x"
      using assms(1) by (simp add: wf_def outcome_start_next)
    then show "snd x < length (heap ?s') \<and> task_id (heap ?s' ! snd x) = fst x"
      using ev len by (auto simp: evolves_def)
  qed
  have D: "\<forall>f \<in> set (fetches ?s'). f_task f < length (heap ?s') \<and> f_canvasIdx f < length (textures ?s')"
  proof
    fix f assume f: "f \<in> set (fetches ?s')"
    from outcome_start_next_fetches[of e s]
    consider "fetches ?s' = fetches s"
      | c k where "k < length (canvas s)" "fetches ?s' = fetches s @ [\<lparr>f_task = snd e, f_ctx = c, f_canvasIdx = k\<rparr>]"
      by blast
    then show "f_task f < length (heap ?s') \<and> f_canvasIdx f < length (textures ?s')"
    proof cases
      case 1
      then show ?thesis using f assms(1) len by (auto simp: wf_def outcome_start_next)
    next
      case 2
      then consider "f \<in> set (fetches s)" | "f = \<lparr>f_task = snd e, f_ctx = c, f_canvasIdx = k\<rparr>"
        using f by auto
      then show ?thesis
      proof cases
        case 1
        then show ?thesis using assms(1) len by (auto simp: wf_def outcome_start_next)
      next
        case 2
        then show ?thesis using \<open>k < length (canvas s)\<close> el assms(1) len
          by (simp add: wf_def outcome_start_next eligible_def)
      qed
    qed
  qed
  show ?thesis using A D assms(1) unfolding wf_def by (simp add: outcome_start_next)
qed

lemma wf_Queue_start: "wf s \<Longrightarrow> wf (Queue_start s)"
  by (rule Queue_start_rule[where P = wf]) (simp_all add: wf_start_next)

lemma wf_loadTiles: "wf s \<Longrightarrow> wf (loadTiles tls s)"
  by (simp add: loadTiles_def wf_Queue_start wf_fold_loadTile wf_Queue_setAllPriorities)

lemma finish_fetch_fields [simp]:
  "tasks (finish_fetch f ok s) = AList.delete (task_id (heap s ! f_task f)) (tasks s)"
  "runningTasks (finish_fetch f ok s) = AList.delete (task_id (heap s ! f_task f)) (runningTasks s)"
  "fetches (finish_fetch f ok s) = remove1 f (fetches s)"
  "tiles (finish_fetch f ok s) = tiles s"
  "loads (finish_fetch f ok s) = loads s"
  "canvas (finish_fetch f ok s) = canvas s"
  "panorama (finish_fetch f ok s) = panorama s"
  "concurency (finish_fetch f ok s) = concurency s"
  "length (textures (finish_fetch f ok s)) = length (textures s)"
  "length (heap (finish_fetch f ok s)) = length (heap s)"
  by (cases "f_task f < length (heap s)";
      simp add: finish_fetch_def Let_def set_status_def list_update_beyond)+

lemma wf_finish_fetch: assumes "wf s" shows "wf (finish_fetch f ok s)"
proof -
  let ?s' = "finish_fetch f ok s"
  have ev: "evolves (heap s) (heap ?s')" by simp
  have A: "\<forall>e \<in> set (tasks ?s'). snd e < length (heap ?s') \<and> task_id (heap ?s' ! snd e) = fst e"
  proof
    fix e assume "e \<in> set (tasks ?s')"
    then have "e \<in> set (tasks s)" using set_delete_subset by fastforce
    then have "snd e < length (heap s) \<and> task_id (heap s ! snd e) = fst e"
      using assms by (simp add: wf_def)
    then show "snd e < length (heap ?s') \<and> task_id (heap ?s' ! snd e) = fst e"
      using ev by (auto simp: evolves_def)
  qed
  have B: "distinct (map fst (tasks ?s'))"
    using assms by (simp add: wf_def distinct_delete)
  have C: "fst ` set (tasks ?s') \<subseteq> tiles ?s'"
    using assms set_delete_subset[of "task_id (heap s ! f_task f)" "tasks s"] by (auto simp: wf_def)
  have D: "\<forall>x \<in> set (fetches ?s'). f_task x < length (heap ?s') \<and> f_canvasIdx x < length (textures ?s')"
    using assms by (auto simp: wf_def dest: notin_set_remove1)
  show ?thesis using A B C D assms unfolding wf_def by simp
qed

lemma wf_settle: "wf s \<Longrightarrow> wf (settle a ok s)"
  by (simp add: settle_def wf_Queue_start wf_finish_fetch split: option.splits)

lemma fold_new_canvas_fields [simp]:
  "tasks (fold (\<lambda>i. new_canvas) xs s) = tasks s"
  "runningTasks (fold (\<lambda>i. new_canvas) xs s) = runningTasks s"
  "tiles (fold (\<lambda>i. new_canvas) xs s) = tiles s"
  "fetches (fold (\<lambda>i. new_canvas) xs s) = fetches s"
  "loads (fold (\<lambda>i. new_canvas) xs s) = loads s"
  "concurency (fold (\<lambda>i. new_canvas) xs s) = concurency s"
  "length (canvas (fold (\<lambda>i. new_canvas) xs s)) = length (canvas s) + length xs"
  "length (textures (fold (\<lambda>i. new_canvas) xs s)) = length (textures s) + length xs"
  by (induction xs arbitrary: s) (simp_all add: new_canvas_def)

lemma fold_Task_cancel_more [simp]:
  "tiles (fold Task_cancel as s) = tiles s"
  "fetches (fold Task_cancel as s) = fetches s"
  "loads (fold Task_cancel as s) = loads s"
  "concurency (fold Task_cancel as s) = concurency s"
  "canvas (fold Task_cancel as s) = canvas s"
  "textures (fold Task_cancel as s) = textures s"
  by (induction as arbitrary: s) (simp_all add: Task_cancel_def)

lemma Queue_clear_fields [simp]:
  "tiles (Queue_clear s) = tiles s"
  "fetches (Queue_clear s) = fetches s"
  "loads (Queue_clear s) = loads s"
  "concurency (Queue_clear s) = concurency s"
  "canvas (Queue_clear s) = canvas s"
  "textures (Queue_clear s) = textures s"
  by (simp_all add: Queue_clear_def Let_def)

lemma loadTexture_not_Resolved: "fst (loadTexture arg s) \<noteq> Resolved \<Longrightarrow> snd (loadTexture arg s) = s"
  by (auto simp: loadTexture_def Let_def split: panorama_arg.splits if_splits)

lemma loadTexture_Resolved:
  assumes "fst (loadTexture arg s) = Resolved"
  shows "tasks (snd (loadTexture arg s)) = []"
    and "runningTasks (snd (loadTexture arg s)) = []"
    and "tiles (snd (loadTexture arg s)) = {}"
    and "fetches (snd (loadTexture arg s)) = fetches s"
    and "loads (snd (loadTexture arg s)) = loads s"
    and "concurency (snd (loadTexture arg s)) = concurency s"
    and "length (heap (snd (loadTexture arg s))) = length (heap s)"
    and "length (canvas (snd (loadTexture arg s))) = 8"
    and "length (textures (snd (loadTexture arg s))) = 8"
  using assms
  by (auto simp: loadTexture_def Let_def split: panorama_arg.splits if_splits)

lemma wf_loadTexture: assumes "wf s" shows "wf (snd (loadTexture arg s))"
proof (cases "fst (loadTexture arg s) = Resolved")
  case False
  then show ?thesis using assms by (simp add: loadTexture_not_Resolved)
next
  case True
  note r = loadTexture_Resolved[OF True]
  have "\<forall>f \<in> set (fetches s). f_task f < length (heap s) \<and> f_canvasIdx f < 8"
    using assms by (fastforce simp: wf_def)
  then show ?thesis unfolding wf_def by (simp add: r)
qed

lemma wf_refresh: "wf s \<Longrightarrow> wf (refresh visible ang s)"
  by (simp add: refresh_def wf_loadTiles split: option.splits prod.splits)

lemma wf_step: "wf s \<Longrightarrow> wf (step e s)"
  by (cases e) (simp_all add: wf_loadTexture wf_refresh wf_loadTiles wf_settle)

lemma wf_run: "wf s \<Longrightarrow> wf (run es s)"
  unfolding run_def by (induction es arbitrary: s) (simp_all add: wf_step)

section \<open>One task and one request per tile and panorama load\<close>

lemma created_heap_change:
  assumes "created T n s" "evolves (heap s) (heap s')" "length (heap s') = length (heap s)"
    "tiles s' = tiles s"
  shows "created T n s'"
proof -
  have ids: "\<And>a. a < length (heap s) \<Longrightarrow> task_id (heap s' ! a) = task_id (heap s ! a)"
    and fns: "\<And>a. a < length (heap s) \<Longrightarrow> fn_tile (heap s' ! a) = fn_tile (heap s ! a)"
    using assms(2) by (auto simp: evolves_def)
  show ?thesis
    using assms(1) unfolding created_def assms(3,4)
    by (simp add: ids fns cong: conj_cong)
qed

lemma created_loadTile: assumes "created T n s" shows "created T n (loadTile tile s)"
proof (cases "tileId tile \<in> tiles s")
  case True
  have "created T n (Queue_setPriority (tileId tile) (pi / 2 - angle tile) s)"
    using assms by (rule created_heap_change) simp_all
  then show ?thesis using True by (simp add: loadTile_def Let_def)
next
  case False
  define i where "i = tileId tile"
  define t where "t = new_Task i (pi / 2 - angle tile) tile"
  let ?s' = "loadTile tile s"
  have h: "heap ?s' = heap s @ [t]" and tl: "tiles ?s' = insert i (tiles s)"
    using False by (simp_all add: loadTile_def Let_def Queue_enqueue_def i_def t_def)
  have t: "task_id t = i" "tileId (fn_tile t) = i" by (simp_all add: t_def new_Task_def i_def)
  have iT: "i \<notin> tiles s" "i \<notin> T" using False assms by (auto simp: i_def created_def)
  have old: "\<And>a. n \<le> a \<Longrightarrow> a < length (heap s) \<Longrightarrow> task_id (heap s ! a) \<noteq> i"
    using assms iT unfolding created_def by blast
  have nth: "\<And>a. a < length (heap s @ [t]) \<Longrightarrow>
      task_id ((heap s @ [t]) ! a) = (if a < length (heap s) then task_id (heap s ! a) else i)"
    by (simp add: nth_append t)
  have 1: "n \<le> length (heap ?s')" "T \<subseteq> tiles ?s'"
    using assms by (auto simp: created_def h tl)
  have 2: "\<forall>a b. n \<le> a \<and> a < length (heap ?s') \<and> n \<le> b \<and> b < length (heap ?s')
            \<and> task_id (heap ?s' ! a) = task_id (heap ?s' ! b) \<longrightarrow> a = b"
  proof (intro allI impI)
    fix a b
    assume ab: "n \<le> a \<and> a < length (heap ?s') \<and> n \<le> b \<and> b < length (heap ?s')
            \<and> task_id (heap ?s' ! a) = task_id (heap ?s' ! b)"
    have la: "a < length (heap s @ [t])" and lb: "b < length (heap s @ [t])"
      using ab unfolding h by simp_all
    have eq: "(if a < length (heap s) then task_id (heap s ! a) else i)
            = (if b < length (heap s) then task_id (heap s ! b) else i)"
      using ab nth[OF la] nth[OF lb] unfolding h by simp
    show "a = b"
    proof (cases "a < length (heap s)"; cases "b < length (heap s)")
      assume c: "a < length (heap s)" "b < length (heap s)"
      then have "task_id (heap s ! a) = task_id (heap s ! b)" using eq by simp
      then show ?thesis using ab c assms unfolding created_def by blast
    next
      assume c: "a < length (heap s)" "\<not> b < length (heap s)"
      then show ?thesis using ab eq old[of a] by simp
    next
      assume c: "\<not> a < length (heap s)" "b < length (heap s)"
      then show ?thesis using ab eq old[of b] by simp
    next
      assume "\<not> a < length (heap s)" "\<not> b < length (heap s)"
      then show ?thesis using la lb by simp
    qed
  qed
  have 3: "\<forall>j. j \<in> tiles ?s' - T \<longleftrightarrow> (\<exists>a. n \<le> a \<and> a < length (heap ?s') \<and> task_id (heap ?s' ! a) = j)"
  proof
    fix j
    have o: "j \<in> tiles s - T \<longleftrightarrow> (\<exists>a. n \<le> a \<and> a < length (heap s) \<and> task_id (heap s ! a) = j)"
      using assms unfolding created_def by blast
    show "j \<in> tiles ?s' - T \<longleftrightarrow> (\<exists>a. n \<le> a \<and> a < length (heap ?s') \<and> task_id (heap ?s' ! a) = j)"
    proof
      assume "j \<in> tiles ?s' - T"
      then consider "j = i" | "j \<in> tiles s - T" unfolding tl by blast
      then show "\<exists>a. n \<le> a \<and> a < length (heap ?s') \<and> task_id (heap ?s' ! a) = j"
      proof cases
        case 1
        have "n \<le> length (heap s) \<and> length (heap s) < length (heap ?s') \<and> task_id (heap ?s' ! length (heap s)) = j"
          using assms 1 by (simp add: h t created_def)
        then show ?thesis by blast
      next
        case 2
        then obtain a where "n \<le> a" "a < length (heap s)" "task_id (heap s ! a) = j" using o by blast
        then have "n \<le> a \<and> a < length (heap ?s') \<and> task_id (heap ?s' ! a) = j"
          by (simp add: h nth_append)
        then show ?thesis by blast
      qed
    next
      assume "\<exists>a. n \<le> a \<and> a < length (heap ?s') \<and> task_id (heap ?s' ! a) = j"
      then obtain a where a: "n \<le> a" "a < length (heap ?s')" "task_id (heap ?s' ! a) = j" by blast
      show "j \<in> tiles ?s' - T"
      proof (cases "a < length (heap s)")
        case True
        then have "j \<in> tiles s - T" using a o by (auto simp: h nth_append)
        then show ?thesis by (simp add: tl)
      next
        case False
        then have "j = i" using a by (simp add: h nth_append t)
        then show ?thesis using iT by (simp add: i_def)
      qed
    qed
  qed
  have 4: "\<forall>a. n \<le> a \<and> a < length (heap ?s') \<longrightarrow> tileId (fn_tile (heap ?s' ! a)) = task_id (heap ?s' ! a)"
  proof (intro allI impI)
    fix a assume a: "n \<le> a \<and> a < length (heap ?s')"
    show "tileId (fn_tile (heap ?s' ! a)) = task_id (heap ?s' ! a)"
    proof (cases "a < length (heap s)")
      case True
      then show ?thesis using a assms unfolding created_def h by (simp add: nth_append)
    next
      case False
      then have "a = length (heap s)" using a by (simp add: h)
      then show ?thesis by (simp add: h t)
    qed
  qed
  show ?thesis unfolding created_def using 1 2 3 4 by blast
qed

lemma created_fold_loadTile: "created T n s \<Longrightarrow> created T n (fold loadTile tls s)"
  by (induction tls arbitrary: s) (simp_all add: created_loadTile)

lemma created_Queue_start: assumes "created T n s" shows "created T n (Queue_start s)"
  using assms by (rule created_heap_change) simp_all

lemma created_loadTiles: "created T n s \<Longrightarrow> created T n (loadTiles tls s)"
proof -
  assume a: "created T n s"
  have "created T n (Queue_setAllPriorities 0 s)"
    using a by (rule created_heap_change) simp_all
  then show ?thesis
    by (simp add: loadTiles_def created_Queue_start created_fold_loadTile)
qed

lemma created_settle: "created T n s \<Longrightarrow> created T n (settle a ok s)"
proof -
  assume a: "created T n s"
  have "created T n (finish_fetch f ok s)" for f
    using a by (rule created_heap_change) simp_all
  then show ?thesis
    by (simp add: settle_def created_Queue_start a split: option.splits)
qed

lemma created_refresh: "created T n s \<Longrightarrow> created T n (refresh visible ang s)"
  by (simp add: refresh_def created_loadTiles split: option.splits prod.splits)

lemma created_step: "created T n s \<Longrightarrow> \<not> is_LoadTexture e \<Longrightarrow> created T n (step e s)"
  by (cases e) (simp_all add: created_refresh created_loadTiles created_settle)

lemma created_run:
  "created T n s \<Longrightarrow> \<forall>e \<in> set es. \<not> is_LoadTexture e \<Longrightarrow> created T n (run es s)"
  unfolding run_def by (induction es arbitrary: s) (simp_all add: created_step)

lemma created_start: "created (tiles s) (length (heap s)) s"
  by (auto simp: created_def)

lemma created_distinct:
  assumes "created T n s"
  shows "distinct (map task_id (drop n (heap s)))"
proof -
  have "i = j" if "i < length (heap s) - n" "j < length (heap s) - n"
    "task_id (drop n (heap s) ! i) = task_id (drop n (heap s) ! j)" for i j
  proof -
    have inj: "\<And>a b. n \<le> a \<and> a < length (heap s) \<and> n \<le> b \<and> b < length (heap s)
            \<and> task_id (heap s ! a) = task_id (heap s ! b) \<Longrightarrow> a = b"
      using assms unfolding created_def by blast
    have l: "n + i < length (heap s)" "n + j < length (heap s)"
      using that by linarith+
    have e: "task_id (heap s ! (n + i)) = task_id (heap s ! (n + j))"
      using that(3) l by simp
    have "n + i = n + j"
      by (rule inj) (use l e in simp)
    then show ?thesis by simp
  qed
  then show ?thesis by (auto simp: distinct_conv_nth)
qed

lemma set_drop_nth: "set (drop n h) = {h ! a | a. n \<le> a \<and> a < length h}"
proof (intro set_eqI iffI)
  fix x
  assume "x \<in> set (drop n h)"
  then obtain k where k: "k < length (drop n h)" "x = drop n h ! k"
    by (auto simp: in_set_conv_nth)
  then have "n \<le> n + k \<and> n + k < length h \<and> x = h ! (n + k)"
    by (simp add: less_diff_conv add.commute)
  then show "x \<in> {h ! a | a. n \<le> a \<and> a < length h}" by blast
next
  fix x
  assume "x \<in> {h ! a | a. n \<le> a \<and> a < length h}"
  then obtain a where a: "n \<le> a" "a < length h" "x = h ! a" by blast
  then have "a - n < length (drop n h)" "drop n h ! (a - n) = x"
    by simp_all
  then show "x \<in> set (drop n h)" using nth_mem by metis
qed

lemma created_ids:
  assumes "created T n s"
  shows "task_id ` set (drop n (heap s)) = tiles s - T"
proof -
  have "task_id ` set (drop n (heap s)) = {i. \<exists>a. n \<le> a \<and> a < length (heap s) \<and> task_id (heap s ! a) = i}"
    unfolding set_drop_nth
  proof (intro set_eqI iffI)
    fix i
    assume "i \<in> task_id ` {heap s ! a | a. n \<le> a \<and> a < length (heap s)}"
    then show "i \<in> {i. \<exists>a. n \<le> a \<and> a < length (heap s) \<and> task_id (heap s ! a) = i}"
      by blast
  next
    fix i
    assume "i \<in> {i. \<exists>a. n \<le> a \<and> a < length (heap s) \<and> task_id (heap s ! a) = i}"
    then obtain a where a: "n \<le> a" "a < length (heap s)" "task_id (heap s ! a) = i" by blast
    then have "heap s ! a \<in> {heap s ! a | a. n \<le> a \<and> a < length (heap s)}" by blast
    then show "i \<in> task_id ` {heap s ! a | a. n \<le> a \<and> a < length (heap s)}"
      using a(3) image_eqI[of i task_id "heap s ! a"] by simp
  qed
  moreover have "\<forall>i. i \<in> tiles s - T \<longleftrightarrow> (\<exists>a. n \<le> a \<and> a < length (heap s) \<and> task_id (heap s ! a) = i)"
    using assms unfolding created_def by (elim conjE)
  ultimately show ?thesis by blast
qed

section \<open>One request per tile and panorama load\<close>

lemma requested_heap_change:
  assumes "requested n m s" "evolves (heap s) (heap s')" "length (heap s') = length (heap s)"
    "set (tasks s') \<subseteq> set (tasks s)" "loads s' = loads s"
  shows "requested n m s'"
proof -
  have keep: "\<And>a. a < length (heap s) \<Longrightarrow> task_id (heap s' ! a) = task_id (heap s ! a)"
    and st: "\<And>a. a < length (heap s) \<Longrightarrow> status (heap s ! a) \<noteq> PENDING \<Longrightarrow> status (heap s' ! a) \<noteq> PENDING"
    using assms(2) by (auto simp: evolves_def terminal_def)
  have "\<exists>a. n \<le> a \<and> a < length (heap s') \<and> task_id (heap s' ! a) = i \<and> status (heap s' ! a) \<noteq> PENDING"
    if "i \<in> set (drop m (loads s'))" for i
  proof -
    from that assms(1,5) obtain a where a: "n \<le> a" "a < length (heap s)" "task_id (heap s ! a) = i"
      "status (heap s ! a) \<noteq> PENDING"
      unfolding requested_def by auto
    then have "n \<le> a \<and> a < length (heap s') \<and> task_id (heap s' ! a) = i \<and> status (heap s' ! a) \<noteq> PENDING"
      using keep[of a] st[of a] assms(3) by simp
    then show ?thesis by blast
  qed
  then show ?thesis
    using assms(1,4,5) unfolding requested_def by auto
qed

lemma requested_loadTile:
  assumes "requested n m s" "n \<le> length (heap s)"
  shows "requested n m (loadTile tile s)"
proof (cases "tileId tile \<in> tiles s")
  case True
  have "requested n m (Queue_setPriority (tileId tile) (pi / 2 - angle tile) s)"
    using assms(1) by (rule requested_heap_change) simp_all
  then show ?thesis using True by (simp add: loadTile_def Let_def)
next
  case False
  define t where "t = new_Task (tileId tile) (pi / 2 - angle tile) tile"
  let ?s' = "loadTile tile s"
  have h: "heap ?s' = heap s @ [t]"
    and ts: "tasks ?s' = AList.update (tileId tile) (length (heap s)) (tasks s)"
    using False by (simp_all add: loadTile_def Let_def Queue_enqueue_def t_def new_Task_def)
  have 1: "\<forall>e \<in> set (tasks ?s'). n \<le> snd e"
    using assms set_update_subset[of "tileId tile" "length (heap s)" "tasks s"]
    unfolding ts requested_def by auto
  have 2: "\<exists>a. n \<le> a \<and> a < length (heap ?s') \<and> task_id (heap ?s' ! a) = i \<and> status (heap ?s' ! a) \<noteq> PENDING"
    if "i \<in> set (drop m (loads ?s'))" for i
  proof -
    from that assms(1) obtain a where a: "n \<le> a" "a < length (heap s)" "task_id (heap s ! a) = i"
      "status (heap s ! a) \<noteq> PENDING"
      unfolding requested_def by auto
    then have "n \<le> a \<and> a < length (heap ?s') \<and> task_id (heap ?s' ! a) = i \<and> status (heap ?s' ! a) \<noteq> PENDING"
      by (simp add: h nth_append)
    then show ?thesis by blast
  qed
  show ?thesis using assms(1) 1 2 unfolding requested_def by simp
qed

lemma requested_fold_loadTile:
  "requested n m s \<Longrightarrow> n \<le> length (heap s) \<Longrightarrow> requested n m (fold loadTile tls s)"
proof (induction tls arbitrary: s)
  case Nil
  then show ?case by simp
next
  case (Cons t tls)
  have "length (heap s) \<le> length (heap (loadTile t s))"
    using loadTile_evolves[of s t] by (simp add: evolves_def)
  then show ?case using Cons by (simp add: requested_loadTile)
qed

lemma requested_start_next:
  assumes "requested n m s" "created T n s" "nextTask s = Some e"
  shows "requested n m (outcome (start_next e s))"
proof -
  let ?s' = "outcome (start_next e s)"
  have el: "e \<in> set (tasks s)" "snd e < length (heap s)" "status (heap s ! snd e) = PENDING"
    using nextTask_Some[OF assms(3)] by (auto simp: eligible_def)
  have ne: "n \<le> snd e" using assms(1) el(1) by (auto simp: requested_def)
  have h: "heap ?s' = (heap s)[snd e := (heap s ! snd e)\<lparr>status := RUNNING\<rparr>]"
    by (simp add: outcome_start_next)
  have ids: "task_id (heap ?s' ! a) = task_id (heap s ! a)" if "a < length (heap s)" for a
    using that unfolding h by (cases "a = snd e") simp_all
  have st: "status (heap ?s' ! a) \<noteq> PENDING" if "a < length (heap s)" "status (heap s ! a) \<noteq> PENDING" for a
    using that unfolding h by (cases "a = snd e") simp_all
  have keep: "\<exists>a. n \<le> a \<and> a < length (heap ?s') \<and> task_id (heap ?s' ! a) = i \<and> status (heap ?s' ! a) \<noteq> PENDING"
    if "i \<in> set (drop m (loads s))" for i
  proof -
    from that assms(1) obtain a where a: "n \<le> a" "a < length (heap s)" "task_id (heap s ! a) = i"
      "status (heap s ! a) \<noteq> PENDING"
      unfolding requested_def by auto
    then have "n \<le> a \<and> a < length (heap ?s') \<and> task_id (heap ?s' ! a) = i \<and> status (heap ?s' ! a) \<noteq> PENDING"
      using ids[of a] st[of a] by (simp add: h)
    then show ?thesis by blast
  qed
  have tk: "\<forall>x \<in> set (tasks ?s'). n \<le> snd x"
    using assms(1) by (simp add: requested_def outcome_start_next)
  from outcome_start_next_fetches[of e s]
  consider "loads ?s' = loads s" | "loads ?s' = loads s @ [tileId (fn_tile (heap s ! snd e))]"
    by blast
  then show ?thesis
  proof cases
    case 1
    then show ?thesis using assms(1) keep tk unfolding requested_def by simp
  next
    case 2
    define i where "i = task_id (heap s ! snd e)"
    have tid: "tileId (fn_tile (heap s ! snd e)) = i"
      using assms(2) ne el(2) unfolding created_def i_def by blast
    have m: "m \<le> length (loads s)" using assms(1) by (simp add: requested_def)
    have dr: "drop m (loads ?s') = drop m (loads s) @ [i]"
      using m by (simp add: 2 tid)
    have fresh: "i \<notin> set (drop m (loads s))"
    proof
      assume "i \<in> set (drop m (loads s))"
      then obtain a where a: "n \<le> a" "a < length (heap s)" "task_id (heap s ! a) = i"
        "status (heap s ! a) \<noteq> PENDING"
        using assms(1) unfolding requested_def by auto
      have inj: "\<And>a b. n \<le> a \<and> a < length (heap s) \<and> n \<le> b \<and> b < length (heap s)
            \<and> task_id (heap s ! a) = task_id (heap s ! b) \<Longrightarrow> a = b"
        using assms(2) unfolding created_def by blast
      have "a = snd e"
        by (rule inj) (use a ne el in \<open>simp add: i_def\<close>)
      then show False using a(4) el(3) by simp
    qed
    have new: "n \<le> snd e \<and> snd e < length (heap ?s') \<and> task_id (heap ?s' ! snd e) = i
         \<and> status (heap ?s' ! snd e) \<noteq> PENDING"
      using ne el by (simp add: h i_def)
    have all: "\<forall>j \<in> set (drop m (loads ?s')).
           \<exists>a. n \<le> a \<and> a < length (heap ?s') \<and> task_id (heap ?s' ! a) = j \<and> status (heap ?s' ! a) \<noteq> PENDING"
      unfolding dr using keep new by auto
    have "distinct (drop m (loads ?s'))"
      unfolding dr using assms(1) fresh by (simp add: requested_def)
    moreover have "m \<le> length (loads ?s')" using m by (simp add: 2)
    ultimately show ?thesis using tk all unfolding requested_def by blast
  qed
qed

lemma created_start_next:
  assumes "created T n s" "nextTask s = Some e"
  shows "created T n (outcome (start_next e s))"
proof -
  have "eligible (heap s) e" using nextTask_Some[OF assms(2)] by simp
  then have "evolves (heap s) (heap (outcome (start_next e s)))"
    by (auto simp: outcome_start_next eligible_def intro!: evolves_update)
  with assms(1) show ?thesis
    by (rule created_heap_change) (simp_all add: outcome_start_next)
qed

lemma requested_Queue_start:
  assumes "requested n m s" "created T n s"
  shows "requested n m (Queue_start s)"
proof -
  have "requested n m s \<and> created T n s" using assms by simp
  then have "requested n m (Queue_start s) \<and> created T n (Queue_start s)"
  proof (rule Queue_start_rule[where P = "\<lambda>s'. requested n m s' \<and> created T n s'"])
    fix s' e
    assume a: "requested n m s' \<and> created T n s'" and n: "nextTask s' = Some e"
    show "requested n m (outcome (start_next e s')) \<and> created T n (outcome (start_next e s'))"
      using requested_start_next[of n m s' T e] created_start_next[of T n s' e] a n by simp
  qed
  then show ?thesis by simp
qed

lemma requested_loadTiles:
  assumes "requested n m s" "created T n s"
  shows "requested n m (loadTiles tls s)"
proof -
  have n: "n \<le> length (heap s)" using assms(2) by (simp add: created_def)
  have 1: "requested n m (Queue_setAllPriorities 0 s)"
    using assms(1) by (rule requested_heap_change) simp_all
  have 2: "created T n (Queue_setAllPriorities 0 s)"
    using assms(2) by (rule created_heap_change) simp_all
  have "requested n m (fold loadTile tls (Queue_setAllPriorities 0 s))"
    using 1 n by (simp add: requested_fold_loadTile)
  moreover have "created T n (fold loadTile tls (Queue_setAllPriorities 0 s))"
    using 2 by (rule created_fold_loadTile)
  ultimately show ?thesis
    unfolding loadTiles_def by (rule requested_Queue_start)
qed

lemma requested_settle:
  assumes "requested n m s" "created T n s"
  shows "requested n m (settle a ok s)"
proof (cases "find (\<lambda>f. f_task f = a) (fetches s)")
  case None
  then show ?thesis using assms by (simp add: settle_def)
next
  case (Some f)
  have "requested n m (finish_fetch f ok s)"
    using assms(1) by (rule requested_heap_change) (simp_all add: set_delete_subset)
  moreover have "created T n (finish_fetch f ok s)"
    using assms(2) by (rule created_heap_change) simp_all
  ultimately have "requested n m (Queue_start (finish_fetch f ok s))"
    by (rule requested_Queue_start)
  then show ?thesis using Some by (simp add: settle_def)
qed

lemma requested_refresh:
  "requested n m s \<Longrightarrow> created T n s \<Longrightarrow> requested n m (refresh visible ang s)"
  by (simp add: refresh_def requested_loadTiles split: option.splits prod.splits)

lemma requested_step:
  "requested n m s \<Longrightarrow> created T n s \<Longrightarrow> \<not> is_LoadTexture e \<Longrightarrow> requested n m (step e s)"
  by (cases e) (simp_all add: requested_refresh requested_loadTiles requested_settle)

lemma requested_run:
  "requested n m s \<Longrightarrow> created T n s \<Longrightarrow> \<forall>e \<in> set es. \<not> is_LoadTexture e
   \<Longrightarrow> requested n m (run es s)"
proof (induction es arbitrary: s)
  case Nil
  then show ?case by (simp add: run_def)
next
  case (Cons e es)
  have "requested n m (step e s)" "created T n (step e s)"
    using Cons.prems by (simp_all add: requested_step created_step)
  then have "requested n m (run es (step e s))"
    using Cons.prems(3) by (intro Cons.IH) simp_all
  then show ?case by (simp add: run_def)
qed

lemma requested_start: "tasks s = [] \<Longrightarrow> requested (length (heap s)) (length (loads s)) s"
  by (simp add: requested_def)

text \<open>
  Claim C10. After \<open>loadTexture\<close> accepted a configuration, and for every sequence of
  refreshes, submissions and fetch settlements without another \<open>loadTexture\<close>: the tasks
  created (enqueued) have pairwise different ids, the urls requested are pairwise different
  tiles, whether fetches succeeded or failed, and the ids of the created tasks are exactly
  what \<open>props.tiles\<close> records, which was emptied by \<open>loadTexture\<close> and is not reset since.
\<close>

theorem C10_one_task_per_tile:
  assumes "fst (loadTexture arg s) = Resolved" and "\<forall>e \<in> set es. \<not> is_LoadTexture e"
  shows "distinct (map task_id (drop (length (heap (snd (loadTexture arg s))))
                                  (heap (run es (snd (loadTexture arg s))))))
       \<and> distinct (drop (length (loads (snd (loadTexture arg s))))
                         (loads (run es (snd (loadTexture arg s)))))
       \<and> task_id ` set (drop (length (heap (snd (loadTexture arg s))))
                              (heap (run es (snd (loadTexture arg s)))))
           = tiles (run es (snd (loadTexture arg s)))"
proof -
  define s0 where "s0 = snd (loadTexture arg s)"
  have t0: "tasks s0 = []" "tiles s0 = {}"
    using loadTexture_Resolved[OF assms(1)] by (simp_all add: s0_def)
  have c: "created {} (length (heap s0)) (run es s0)"
    using created_run[OF created_start[of s0] assms(2)] by (simp add: t0)
  have r: "requested (length (heap s0)) (length (loads s0)) (run es s0)"
    using requested_run[OF requested_start[OF t0(1)] _ assms(2), of "{}"] created_start[of s0]
    by (simp add: t0)
  have "distinct (map task_id (drop (length (heap s0)) (heap (run es s0))))"
    using c by (rule created_distinct)
  moreover have "distinct (drop (length (loads s0)) (loads (run es s0)))"
    using r by (simp add: requested_def)
  moreover have "task_id ` set (drop (length (heap s0)) (heap (run es s0))) = tiles (run es s0)"
    using created_ids[OF c] by simp
  ultimately show ?thesis unfolding s0_def by simp
qed

theorem C10_one_task_per_tile_witness:
  "fst (loadTexture small_panorama constructor) = Resolved
   \<and> map task_id (heap (run [LoadTiles [\<lparr>col = 0, row = 0, angle = 0\<rparr>], Settle 0 False,
                                LoadTiles [\<lparr>col = 0, row = 0, angle = 0\<rparr>]]
                           (snd (loadTexture small_panorama constructor)))) = [(0, 0)]
   \<and> loads (run [LoadTiles [\<lparr>col = 0, row = 0, angle = 0\<rparr>], Settle 0 False,
                  LoadTiles [\<lparr>col = 0, row = 0, angle = 0\<rparr>]]
             (snd (loadTexture small_panorama constructor))) = [(0, 0)]"
  using C10_one_task_per_tile[of small_panorama constructor
          "[LoadTiles [\<lparr>col = 0, row = 0, angle = 0\<rparr>], Settle 0 False,
            LoadTiles [\<lparr>col = 0, row = 0, angle = 0\<rparr>]]"]
  by (simp add: run_simps)

lemmas refresh_simps = corner_view_def refresh_def tilesToLoad_def sample_points_def visit_sample_def
  getAdjacentTiles_def wrapTile_def upto_rec1

end
